theory Spec2Isabelle
  imports Main "HOL-Library.Multiset"
begin

section \<open>Data model of src/index.ts\<close>

text \<open>
  The interfaces of the script. \<open>HistoryEntry\<close> has the four fields of \<open>VersionInfo\<close>
  and a \<open>type\<close> tag, so it is the record extension; the tag's two string literals
  \<open>'stable' | 'preview'\<close> are the two constructors of \<open>Channel\<close>.
  The object returned by \<open>fetchLatestVersions\<close> and stored under \<open>latest\<close> is \<open>Latest\<close>.
\<close>

record DownloadLink =
  downloadType :: string
  downloadUrl :: string

record VersionInfo =
  version :: string
  windows :: string
  linux :: string
  releasedAt :: string

datatype Channel = Stable | Preview

record HistoryEntry = VersionInfo +
  type :: Channel

record Latest =
  stable :: VersionInfo
  preview :: VersionInfo

record VersionData =
  latest :: Latest
  history :: "HistoryEntry list"

section \<open>Removing duplicates: \<open>filter\<close> with \<open>findIndex\<close>\<close>

text \<open>
  \<open>Array.prototype.findIndex\<close>: the index of the first element that satisfies the
  predicate, \<open>-1\<close> when there is none. The second argument is the loop counter.
\<close>

fun findIndexFrom :: "('a \<Rightarrow> bool) \<Rightarrow> int \<Rightarrow> 'a list \<Rightarrow> int" where
  "findIndexFrom p i [] = -1"
| "findIndexFrom p i (x # xs) = (if p x then i else findIndexFrom p (i + 1) xs)"

definition findIndex :: "('a \<Rightarrow> bool) \<Rightarrow> 'a list \<Rightarrow> int" where
  "findIndex p self = findIndexFrom p 0 self"

text \<open>
  \<open>Array.prototype.filter\<close> with the three-argument callback \<open>(entry, index, self)\<close>:
  the elements are visited in order, the counter is the index of the element in \<open>self\<close>.
\<close>

fun filterFrom :: "('a \<Rightarrow> int \<Rightarrow> 'a list \<Rightarrow> bool) \<Rightarrow> int \<Rightarrow> 'a list \<Rightarrow> 'a list \<Rightarrow> 'a list" where
  "filterFrom f i self [] = []"
| "filterFrom f i self (x # xs) =
     (if f x i self then x # filterFrom f (i + 1) self xs else filterFrom f (i + 1) self xs)"

definition filter_indexed :: "('a \<Rightarrow> int \<Rightarrow> 'a list \<Rightarrow> bool) \<Rightarrow> 'a list \<Rightarrow> 'a list" where
  "filter_indexed f self = filterFrom f 0 self self"

text \<open>Lines 166-168: an entry stays when it is the first one of its type and version.\<close>

definition uniqueHistory :: "HistoryEntry list \<Rightarrow> HistoryEntry list" where
  "uniqueHistory newHistory =
     filter_indexed
       (\<lambda>entry index self.
          index = findIndex (\<lambda>e. type e = type entry \<and> version e = version entry) self)
       newHistory"

section \<open>Sorting by \<open>releasedAt\<close>, newest first\<close>

text \<open>
  \<open>new Date(s).getTime()\<close> is a function of the runtime, not of this script. It is a
  parameter \<open>getTime\<close> of the model: \<open>Some t\<close> is the time value \<open>t\<close> in milliseconds,
  \<open>None\<close> is \<open>NaN\<close> (the string is not a date). A difference with \<open>NaN\<close> is \<open>NaN\<close>.
\<close>

definition compareFn :: "(string \<Rightarrow> int option) \<Rightarrow> HistoryEntry \<Rightarrow> HistoryEntry \<Rightarrow> int option" where
  "compareFn getTime a b =
     (case getTime (releasedAt b) of
        None \<Rightarrow> None
      | Some tb \<Rightarrow> (case getTime (releasedAt a) of None \<Rightarrow> None | Some ta \<Rightarrow> Some (tb - ta)))"

text \<open>
  \<open>Array.prototype.sort\<close> with a comparator. ECMAScript's \<open>SortCompare\<close> reads a
  \<open>NaN\<close> result as \<open>+0\<close>, and the sort is stable: an element moves behind another one
  only when the comparator is positive. For a consistent comparator that fixes the result,
  which insertion from the right computes; the comparator of line 171 is consistent when
  every \<open>releasedAt\<close> is a date. Where one is not a date ECMAScript leaves the order to
  the implementation, the runtime orders such a list in its own way, and sorting it twice
  can change it again. So the order of the result is stated below only for timestamps that
  are dates; what holds for every list is that the result is a permutation of the input.
\<close>

definition sortCompare :: "('a \<Rightarrow> 'a \<Rightarrow> int option) \<Rightarrow> 'a \<Rightarrow> 'a \<Rightarrow> int" where
  "sortCompare cmp x y = (case cmp x y of None \<Rightarrow> 0 | Some v \<Rightarrow> v)"

fun insertSorted :: "('a \<Rightarrow> 'a \<Rightarrow> int option) \<Rightarrow> 'a \<Rightarrow> 'a list \<Rightarrow> 'a list" where
  "insertSorted cmp x [] = [x]"
| "insertSorted cmp x (y # ys) =
     (if sortCompare cmp x y > 0 then y # insertSorted cmp x ys else x # y # ys)"

definition array_sort :: "('a \<Rightarrow> 'a \<Rightarrow> int option) \<Rightarrow> 'a list \<Rightarrow> 'a list" where
  "array_sort cmp xs = foldr (insertSorted cmp) xs []"

section \<open>The regular expression of \<open>extractVersion\<close>\<close>

text \<open>
  The constructs that occur in the literal at line 44: literal characters, \<open>\d\<close>,
  concatenation, the greedy quantifiers \<open>+\<close> and \<open>{m,n}\<close>, and the capturing group.
  A non-capturing group \<open>(?:r)\<close> is \<open>r\<close> itself. Without the \<open>u\<close> flag \<open>\d\<close> is
  one of the ten ASCII digits.
\<close>

datatype regex =
    Lit string
  | Digit
  | Seq regex regex
  | Plus regex
  | Rep nat nat regex
  | Group regex

definition isDigit :: "char \<Rightarrow> bool" where
  "isDigit c = (c \<in> set ''0123456789'')"

text \<open>
  A state of the matcher is the rest of the input and the text of capture 1 (\<open>None\<close>
  while the group has not matched). \<open>rmatch r st\<close> lists the states in which a match of
  \<open>r\<close> from \<open>st\<close> can end, in the order in which a backtracking matcher tries them: a
  greedy quantifier tries one more iteration before it tries to stop. As in ECMAScript's
  \<open>RepeatMatcher\<close>, an iteration beyond the minimum that consumes nothing is rejected;
  so the rest of the input is fuel enough for \<open>+\<close>.
\<close>

type_synonym mstate = "string \<times> string option"

fun star :: "(mstate \<Rightarrow> mstate list) \<Rightarrow> nat \<Rightarrow> mstate \<Rightarrow> mstate list" where
  "star f 0 st = [st]"
| "star f (Suc k) st =
     concat (map (star f k) (filter (\<lambda>st'. length (fst st') < length (fst st)) (f st))) @ [st]"

fun repeat :: "(mstate \<Rightarrow> mstate list) \<Rightarrow> nat \<Rightarrow> nat \<Rightarrow> mstate \<Rightarrow> mstate list" where
  "repeat f m 0 st = (if m = 0 then [st] else [])"
| "repeat f m (Suc n) st =
     (if m = 0
      then concat (map (repeat f 0 n) (filter (\<lambda>st'. length (fst st') < length (fst st)) (f st)))
           @ [st]
      else concat (map (repeat f (m - 1) n) (f st)))"

primrec rmatch :: "regex \<Rightarrow> mstate \<Rightarrow> mstate list" where
  "rmatch (Lit l) =
     (\<lambda>st. if take (length l) (fst st) = l then [(drop (length l) (fst st), snd st)] else [])"
| "rmatch Digit =
     (\<lambda>st. case fst st of [] \<Rightarrow> [] | x # xs \<Rightarrow> if isDigit x then [(xs, snd st)] else [])"
| "rmatch (Seq a b) = (\<lambda>st. concat (map (rmatch b) (rmatch a st)))"
| "rmatch (Plus a) =
     (\<lambda>st. concat (map (\<lambda>st'. star (rmatch a) (length (fst st')) st') (rmatch a st)))"
| "rmatch (Rep m n a) = repeat (rmatch a) m n"
| "rmatch (Group a) =
     (\<lambda>st. map (\<lambda>st'. (fst st', Some (take (length (fst st) - length (fst st')) (fst st))))
               (rmatch a st))"

text \<open>
  \<open>String.prototype.match\<close> with a regular expression without the \<open>g\<close> flag: the first
  way to match at the leftmost position that has one. \<open>None\<close> is \<open>null\<close>; otherwise
  the value is element 1 of the result array, the text of the group.
\<close>

fun regexExec :: "regex \<Rightarrow> string \<Rightarrow> (string option) option" where
  "regexExec r [] = (case rmatch r ([], None) of [] \<Rightarrow> None | st # _ \<Rightarrow> Some (snd st))"
| "regexExec r (x # xs) =
     (case rmatch r (x # xs, None) of [] \<Rightarrow> regexExec r xs | st # _ \<Rightarrow> Some (snd st))"

text \<open>Line 44: \<open>/bedrock-server-(\d+\.\d+(?:\.\d+){1,2})\.zip/\<close>.\<close>

definition versionPattern :: regex where
  "versionPattern =
     Seq (Lit ''bedrock-server-'')
      (Seq (Group (Seq (Plus Digit) (Seq (Lit ''.'') (Seq (Plus Digit)
              (Rep 1 2 (Seq (Lit ''.'') (Plus Digit)))))))
           (Lit ''.zip''))"

text \<open>Lines 43-46: \<open>match ? match[1] : null\<close>.\<close>

definition extractVersion :: "string \<Rightarrow> string option" where
  "extractVersion url = (case regexExec versionPattern url of None \<Rightarrow> None | Some m \<Rightarrow> m)"

section \<open>\<open>fetchLatestVersions\<close> after the response has arrived (lines 55-80)\<close>

text \<open>
  \<open>links.find(link => link.downloadType === t)?.downloadUrl || ''\<close>: the URL of the first
  link of that type, the empty string when there is none.
\<close>

definition findUrl :: "DownloadLink list \<Rightarrow> string \<Rightarrow> string" where
  "findUrl links t =
     (case find (\<lambda>link. downloadType link = t) links of None \<Rightarrow> [] | Some link \<Rightarrow> downloadUrl link)"

text \<open>
  JavaScript's \<open>a || b\<close> on values that are a string or \<open>null\<close>: \<open>null\<close> and the empty
  string are falsy.
\<close>

fun orElse :: "string option \<Rightarrow> string option \<Rightarrow> string option" where
  "orElse None b = b"
| "orElse (Some v) b = (if v = [] then b else Some v)"

fun orDefault :: "string option \<Rightarrow> string \<Rightarrow> string" where
  "orDefault None d = d"
| "orDefault (Some v) d = (if v = [] then d else v)"

text \<open>Lines 62-63: \<open>extractVersion(windows) || extractVersion(linux) || 'unknown'\<close>.\<close>

definition resolveVersion :: "string \<Rightarrow> string \<Rightarrow> string" where
  "resolveVersion primary secondary =
     orDefault (orElse (extractVersion primary) (extractVersion secondary)) ''unknown''"

text \<open>
  The links of the response and the result of \<open>new Date().toISOString()\<close> are the
  arguments.
\<close>

definition fetchLatestVersions :: "DownloadLink list \<Rightarrow> string \<Rightarrow> Latest" where
  "fetchLatestVersions links now =
     (let stableWindows = findUrl links ''serverBedrockWindows'';
          stableLinux = findUrl links ''serverBedrockLinux'';
          previewWindows = findUrl links ''serverBedrockPreviewWindows'';
          previewLinux = findUrl links ''serverBedrockPreviewLinux'';
          stableVersion = resolveVersion stableWindows stableLinux;
          previewVersion = resolveVersion previewWindows previewLinux
      in \<lparr>stable = \<lparr>version = stableVersion, windows = stableWindows, linux = stableLinux,
                     releasedAt = now\<rparr>,
          preview = \<lparr>version = previewVersion, windows = previewWindows, linux = previewLinux,
                      releasedAt = now\<rparr>\<rparr>)"

section \<open>\<open>loadExistingData\<close> (lines 83-95)\<close>

text \<open>
  What the function finds at a path: no file (\<open>existsSync\<close> is false); a file on which the
  \<open>try\<close> block throws, because \<open>readFile\<close> rejects or \<open>JSON.parse\<close> throws a
  \<open>SyntaxError\<close>; or a file whose text \<open>JSON.parse\<close> turns into a value. The value is
  returned as it is: the function does not look at it, so its type is a parameter.
\<close>

datatype 'a stored = NoFile | Unparsable | Document 'a

text \<open>
  The promise of an \<open>async\<close> function: rejected with an error (\<open>Inl\<close>) or resolved with a
  value (\<open>Inr\<close>). The \<open>catch\<close> block at lines 91-94 warns and returns \<open>null\<close>.
\<close>

datatype error = StoreReadError

definition loadExistingData :: "(string \<Rightarrow> 'a stored) \<Rightarrow> string \<Rightarrow> error + 'a option" where
  "loadExistingData fs filePath =
     (case fs filePath of
        NoFile \<Rightarrow> Inr None
      | Unparsable \<Rightarrow> Inr None
      | Document v \<Rightarrow> Inr (Some v))"

section \<open>The reconciliation in \<open>main\<close> (lines 118-176)\<close>

text \<open>The object literals pushed at lines 131-137 and 147-153.\<close>

definition historyEntry :: "Channel \<Rightarrow> VersionInfo \<Rightarrow> HistoryEntry" where
  "historyEntry t v =
     \<lparr>version = version v, windows = windows v, linux = linux v, releasedAt = releasedAt v,
      type = t\<rparr>"

text \<open>
  The three mutable variables of \<open>main\<close> between lines 118 and 163: the flag
  \<open>hasChanges\<close>, the array \<open>newHistory\<close> and the object \<open>latestVersions\<close>, whose
  \<open>releasedAt\<close> fields are overwritten when a channel did not change. Each of the two
  \<open>if\<close> statements (lines 128-142 and 144-158) is a step on that state.
\<close>

record main_state =
  hasChanges :: bool
  newHistory :: "HistoryEntry list"
  latestVersions :: Latest

definition stableStep :: "VersionData \<Rightarrow> bool \<Rightarrow> main_state \<Rightarrow> main_state" where
  "stableStep existingData stableChanged s =
     (if stableChanged
      then s\<lparr>newHistory := newHistory s @ [historyEntry Stable (stable (latest existingData))],
             hasChanges := True\<rparr>
      else s\<lparr>latestVersions := (latestVersions s)
               \<lparr>stable := (stable (latestVersions s))
                  \<lparr>releasedAt := releasedAt (stable (latest existingData))\<rparr>\<rparr>\<rparr>)"

definition previewStep :: "VersionData \<Rightarrow> bool \<Rightarrow> main_state \<Rightarrow> main_state" where
  "previewStep existingData previewChanged s =
     (if previewChanged
      then s\<lparr>newHistory := newHistory s @ [historyEntry Preview (preview (latest existingData))],
             hasChanges := True\<rparr>
      else s\<lparr>latestVersions := (latestVersions s)
               \<lparr>preview := (preview (latestVersions s))
                  \<lparr>releasedAt := releasedAt (preview (latest existingData))\<rparr>\<rparr>\<rparr>)"

text \<open>
  Lines 118-163. \<open>existingData\<close> is \<open>None\<close> for \<open>null\<close>. The two flags are computed
  first (lines 125-126), then the two \<open>if\<close> statements run, stable first.
\<close>

definition compareWithExisting :: "Latest \<Rightarrow> VersionData option \<Rightarrow> main_state" where
  "compareWithExisting fetched existingData =
     (let s0 = \<lparr>hasChanges = False,
                newHistory = (case existingData of None \<Rightarrow> [] | Some d \<Rightarrow> history d),
                latestVersions = fetched\<rparr>
      in case existingData of
           None \<Rightarrow> s0\<lparr>hasChanges := True\<rparr>
         | Some d \<Rightarrow>
             (let stableChanged = (version (stable (latest d)) \<noteq> version (stable fetched));
                  previewChanged = (version (preview (latest d)) \<noteq> version (preview fetched))
              in previewStep d previewChanged (stableStep d stableChanged s0)))"

text \<open>
  Lines 118-176: the document that is written, and the flag that is reported as
  \<open>updated\<close> and \<open>has-changes\<close>.
\<close>

definition reconcile :: "(string \<Rightarrow> int option) \<Rightarrow> Latest \<Rightarrow> VersionData option \<Rightarrow> VersionData \<times> bool" where
  "reconcile getTime fetched existingData =
     (let s = compareWithExisting fetched existingData;
          sortedHistory = array_sort (compareFn getTime) (uniqueHistory (newHistory s))
      in (\<lparr>latest = latestVersions s, history = sortedHistory\<rparr>, hasChanges s))"

text \<open>
  \<open>main\<close> from the fetched links to the document it writes and the flag it reports
  (lines 111-176). A rejected promise ends the run before anything is written.
\<close>

definition mainResult ::
  "(string \<Rightarrow> int option) \<Rightarrow> (string \<Rightarrow> VersionData stored) \<Rightarrow> string \<Rightarrow> DownloadLink list \<Rightarrow> string
     \<Rightarrow> error + (VersionData \<times> bool)" where
  "mainResult getTime fs outputPath links now =
     (let fetched = fetchLatestVersions links now
      in case loadExistingData fs outputPath of
           Inl e \<Rightarrow> Inl e
         | Inr existingData \<Rightarrow> Inr (reconcile getTime fetched existingData))"

section \<open>Time values of the timestamps the script writes\<close>

text \<open>
  The script writes \<open>new Date().toISOString()\<close>: a string of the form
  \<open>YYYY-MM-DDTHH:mm:ss.sssZ\<close> that names a day of the calendar and a time of that day.
  On those strings \<open>isoTime\<close> is \<open>Date.parse\<close>: the milliseconds since
  1970-01-01T00:00:00Z, by the usual count of the days of the proleptic Gregorian calendar.
  On every other string it gives \<open>None\<close>; that is not \<open>Date.parse\<close> in general, which
  also accepts other formats and some strings of this form that \<open>toISOString\<close> never
  writes (a day 30 of February, an hour 24). The theorems below hold for every
  \<open>getTime\<close>; \<open>isoTime\<close> is the instance in the closed examples, whose timestamps
  are all strings that \<open>toISOString\<close> writes.
\<close>

definition digitValue :: "char \<Rightarrow> int" where
  "digitValue c = of_char c - 48"

definition decimal :: "string \<Rightarrow> int" where
  "decimal s = foldl (\<lambda>a c. 10 * a + digitValue c) 0 s"

definition isLeapYear :: "int \<Rightarrow> bool" where
  "isLeapYear y = (y mod 4 = 0 \<and> (y mod 100 \<noteq> 0 \<or> y mod 400 = 0))"

definition daysInMonth :: "int \<Rightarrow> int \<Rightarrow> int" where
  "daysInMonth y m =
     (if m = 2 then (if isLeapYear y then 29 else 28)
      else if m = 4 \<or> m = 6 \<or> m = 9 \<or> m = 11 then 30 else 31)"

definition daysFromCivil :: "int \<Rightarrow> int \<Rightarrow> int \<Rightarrow> int" where
  "daysFromCivil y m d =
     (let y' = (if m \<le> 2 then y - 1 else y);
          era = y' div 400;
          yoe = y' - era * 400;
          mp = (m + 9) mod 12;
          doy = (153 * mp + 2) div 5 + d - 1;
          doe = yoe * 365 + yoe div 4 - yoe div 100 + doy
      in era * 146097 + doe - 719468)"

definition slice :: "nat \<Rightarrow> nat \<Rightarrow> string \<Rightarrow> string" where
  "slice i j s = take (j - i) (drop i s)"

definition isoTime :: "string \<Rightarrow> int option" where
  "isoTime s =
     (if length s = 24 \<and> slice 4 5 s = ''-'' \<and> slice 7 8 s = ''-'' \<and> slice 10 11 s = ''T''
         \<and> slice 13 14 s = '':'' \<and> slice 16 17 s = '':'' \<and> slice 19 20 s = ''.''
         \<and> slice 23 24 s = ''Z''
         \<and> list_all isDigit (slice 0 4 s @ slice 5 7 s @ slice 8 10 s @ slice 11 13 s
               @ slice 14 16 s @ slice 17 19 s @ slice 20 23 s)
      then (let y = decimal (slice 0 4 s); mo = decimal (slice 5 7 s); d = decimal (slice 8 10 s);
                h = decimal (slice 11 13 s); mi = decimal (slice 14 16 s);
                sec = decimal (slice 17 19 s); ms = decimal (slice 20 23 s)
            in if 1 \<le> mo \<and> mo \<le> 12 \<and> 1 \<le> d \<and> d \<le> daysInMonth y mo
                  \<and> h \<le> 23 \<and> mi \<le> 59 \<and> sec \<le> 59
               then Some ((((daysFromCivil y mo d * 24 + h) * 60 + mi) * 60 + sec) * 1000 + ms)
               else None)
      else None)"

section \<open>Notions used in the statements\<close>

text \<open>The pair that line 167 compares: the type and the version of an entry.\<close>

definition entryKey :: "HistoryEntry \<Rightarrow> Channel \<times> string" where
  "entryKey e = (type e, version e)"

text \<open>The descriptor of a channel in a \<open>latest\<close> object.\<close>

fun channelOf :: "Channel \<Rightarrow> Latest \<Rightarrow> VersionInfo" where
  "channelOf Stable l = stable l"
| "channelOf Preview l = preview l"

text \<open>
  One pass that keeps an entry unless its key was seen before; \<open>uniqueHistory\<close> is shown
  to compute the same list.
\<close>

fun dedupSeen :: "(Channel \<times> string) list \<Rightarrow> HistoryEntry list \<Rightarrow> HistoryEntry list" where
  "dedupSeen seen [] = []"
| "dedupSeen seen (x # xs) =
     (if entryKey x \<in> set seen then dedupSeen seen xs else x # dedupSeen (entryKey x # seen) xs)"

text \<open>The sort leaves \<open>a\<close> in front of \<open>b\<close>: the comparator is not positive.\<close>

definition notAfter :: "('a \<Rightarrow> 'a \<Rightarrow> int option) \<Rightarrow> 'a \<Rightarrow> 'a \<Rightarrow> bool" where
  "notAfter cmp a b = (\<not> sortCompare cmp a b > 0)"

text \<open>Both timestamps are dates, and the one of \<open>a\<close> is not earlier than the one of \<open>b\<close>.\<close>

definition newerOrSame :: "(string \<Rightarrow> int option) \<Rightarrow> HistoryEntry \<Rightarrow> HistoryEntry \<Rightarrow> bool" where
  "newerOrSame getTime a b =
     (case getTime (releasedAt a) of None \<Rightarrow> False
      | Some ta \<Rightarrow> (case getTime (releasedAt b) of None \<Rightarrow> False | Some tb \<Rightarrow> tb \<le> ta))"

text \<open>
  The entries that lines 128-158 push: the prior descriptor of each channel whose version
  differs from the fetched one, stable first.
\<close>

definition pushed :: "Latest \<Rightarrow> VersionData \<Rightarrow> HistoryEntry list" where
  "pushed fetched d =
     (if version (stable (latest d)) \<noteq> version (stable fetched)
      then [historyEntry Stable (stable (latest d))] else [])
     @ (if version (preview (latest d)) \<noteq> version (preview fetched)
        then [historyEntry Preview (preview (latest d))] else [])"

section \<open>The pattern in the words of the specification\<close>

text \<open>
  A number is one or more digits. The identifier is a dotted number of three or four
  numbers: \<open><N>.<N>(.<N>){1,2}\<close>. The pattern occurs in a locator behind \<open>pre\<close> when
  the locator goes on with \<open>bedrock-server-\<close>, the identifier and \<open>.zip\<close>. What the
  pattern captures in a locator is the identifier of the leftmost place where it occurs.
\<close>

definition isNumber :: "string \<Rightarrow> bool" where
  "isNumber n = (n \<noteq> [] \<and> list_all isDigit n)"

definition dottedNumber :: "string \<Rightarrow> bool" where
  "dottedNumber v =
     (\<exists>a b c. isNumber a \<and> isNumber b \<and> isNumber c \<and>
        (v = a @ ''.'' @ b @ ''.'' @ c
         \<or> (\<exists>d. isNumber d \<and> v = a @ ''.'' @ b @ ''.'' @ c @ ''.'' @ d)))"

definition occursAt :: "string \<Rightarrow> string \<Rightarrow> string \<Rightarrow> bool" where
  "occursAt url pre v =
     (dottedNumber v \<and> (\<exists>post. url = pre @ ''bedrock-server-'' @ v @ ''.zip'' @ post))"

definition patternCapture :: "string \<Rightarrow> string \<Rightarrow> bool" where
  "patternCapture url v =
     (\<exists>pre. occursAt url pre v \<and> (\<forall>pre' v'. occursAt url pre' v' \<longrightarrow> length pre \<le> length pre'))"

text \<open>
  For the proofs: the words that a regular expression without a group matches, as a
  predicate; the words of \<open>\.\d+\<close>; and the body of the group of \<open>versionPattern\<close>.
\<close>

definition langOf :: "regex \<Rightarrow> (string \<Rightarrow> bool) \<Rightarrow> bool" where
  "langOf r A = (\<forall>s c t c'. ((t, c') \<in> set (rmatch r (s, c))) = (c' = c \<and> (\<exists>u. A u \<and> s = u @ t)))"

definition dotNumber :: "string \<Rightarrow> bool" where
  "dotNumber p = (\<exists>u v. u = ''.'' \<and> isNumber v \<and> p = u @ v)"

definition versionBody :: regex where
  "versionBody = Seq (Plus Digit) (Seq (Lit ''.'') (Seq (Plus Digit)
              (Rep 1 2 (Seq (Lit ''.'') (Plus Digit)))))"

section \<open>Example documents\<close>

text \<open>
  The four links of a response for a stable and a preview version; the pair fetched from
  such a response; a stored document in which only the stable version is older; and the
  document that the script itself writes after version 1.21.120.0 was replaced by 1.21.121.1
  and came back: the history already has an entry for stable 1.21.120.0 from its first
  period, and 1.21.120.0 is the latest again, with a later timestamp.
\<close>

definition example_links :: "string \<Rightarrow> string \<Rightarrow> DownloadLink list" where
  "example_links s p =
     [\<lparr>downloadType = ''serverBedrockWindows'',
       downloadUrl = ''https://www.minecraft.net/bedrockdedicatedserver/bin-win/bedrock-server-'' @ s @ ''.zip''\<rparr>,
      \<lparr>downloadType = ''serverBedrockLinux'',
       downloadUrl = ''https://www.minecraft.net/bedrockdedicatedserver/bin-linux/bedrock-server-'' @ s @ ''.zip''\<rparr>,
      \<lparr>downloadType = ''serverBedrockPreviewWindows'',
       downloadUrl = ''https://www.minecraft.net/bedrockdedicatedserver/bin-win-preview/bedrock-server-'' @ p @ ''.zip''\<rparr>,
      \<lparr>downloadType = ''serverBedrockPreviewLinux'',
       downloadUrl = ''https://www.minecraft.net/bedrockdedicatedserver/bin-linux-preview/bedrock-server-'' @ p @ ''.zip''\<rparr>]"

definition example_fetched :: Latest where
  "example_fetched =
     \<lparr>stable = \<lparr>version = ''1.21.124.2'',
                 windows = ''https://www.minecraft.net/bedrockdedicatedserver/bin-win/bedrock-server-1.21.124.2.zip'',
                 linux = ''https://www.minecraft.net/bedrockdedicatedserver/bin-linux/bedrock-server-1.21.124.2.zip'',
                 releasedAt = ''2025-11-21T00:00:00.000Z''\<rparr>,
      preview = \<lparr>version = ''1.21.130.28'',
                  windows = ''https://www.minecraft.net/bedrockdedicatedserver/bin-win-preview/bedrock-server-1.21.130.28.zip'',
                  linux = ''https://www.minecraft.net/bedrockdedicatedserver/bin-linux-preview/bedrock-server-1.21.130.28.zip'',
                  releasedAt = ''2025-11-21T00:00:00.000Z''\<rparr>\<rparr>"

definition example_prior :: VersionData where
  "example_prior =
     \<lparr>latest =
        \<lparr>stable = \<lparr>version = ''1.21.120.0'',
                    windows = ''https://www.minecraft.net/bedrockdedicatedserver/bin-win/bedrock-server-1.21.120.0.zip'',
                    linux = ''https://www.minecraft.net/bedrockdedicatedserver/bin-linux/bedrock-server-1.21.120.0.zip'',
                    releasedAt = ''2025-11-15T00:00:00.000Z''\<rparr>,
         preview = \<lparr>version = ''1.21.130.28'',
                     windows = ''https://www.minecraft.net/bedrockdedicatedserver/bin-win-preview/bedrock-server-1.21.130.28.zip'',
                     linux = ''https://www.minecraft.net/bedrockdedicatedserver/bin-linux-preview/bedrock-server-1.21.130.28.zip'',
                     releasedAt = ''2025-11-20T00:00:00.000Z''\<rparr>\<rparr>,
      history =
        [\<lparr>version = ''1.21.120.24'',
          windows = ''https://www.minecraft.net/bedrockdedicatedserver/bin-win-preview/bedrock-server-1.21.120.24.zip'',
          linux = ''https://www.minecraft.net/bedrockdedicatedserver/bin-linux-preview/bedrock-server-1.21.120.24.zip'',
          releasedAt = ''2025-11-10T00:00:00.000Z'', type = Preview\<rparr>,
         \<lparr>version = ''1.21.114.1'',
          windows = ''https://www.minecraft.net/bedrockdedicatedserver/bin-win/bedrock-server-1.21.114.1.zip'',
          linux = ''https://www.minecraft.net/bedrockdedicatedserver/bin-linux/bedrock-server-1.21.114.1.zip'',
          releasedAt = ''2025-11-01T00:00:00.000Z'', type = Stable\<rparr>]\<rparr>"

definition rollback_prior :: VersionData where
  "rollback_prior =
     \<lparr>latest =
        \<lparr>stable = \<lparr>version = ''1.21.120.0'',
                    windows = ''https://www.minecraft.net/bedrockdedicatedserver/bin-win/bedrock-server-1.21.120.0.zip'',
                    linux = ''https://www.minecraft.net/bedrockdedicatedserver/bin-linux/bedrock-server-1.21.120.0.zip'',
                    releasedAt = ''2025-11-18T00:00:00.000Z''\<rparr>,
         preview = \<lparr>version = ''1.21.130.28'',
                     windows = ''https://www.minecraft.net/bedrockdedicatedserver/bin-win-preview/bedrock-server-1.21.130.28.zip'',
                     linux = ''https://www.minecraft.net/bedrockdedicatedserver/bin-linux-preview/bedrock-server-1.21.130.28.zip'',
                     releasedAt = ''2025-11-15T00:00:00.000Z''\<rparr>\<rparr>,
      history =
        [\<lparr>version = ''1.21.121.1'',
          windows = ''https://www.minecraft.net/bedrockdedicatedserver/bin-win/bedrock-server-1.21.121.1.zip'',
          linux = ''https://www.minecraft.net/bedrockdedicatedserver/bin-linux/bedrock-server-1.21.121.1.zip'',
          releasedAt = ''2025-11-16T00:00:00.000Z'', type = Stable\<rparr>,
         \<lparr>version = ''1.21.120.0'',
          windows = ''https://www.minecraft.net/bedrockdedicatedserver/bin-win/bedrock-server-1.21.120.0.zip'',
          linux = ''https://www.minecraft.net/bedrockdedicatedserver/bin-linux/bedrock-server-1.21.120.0.zip'',
          releasedAt = ''2025-11-15T00:00:00.000Z'', type = Stable\<rparr>]\<rparr>"


text \<open>The entry of the first period of stable 1.21.120.0 in \<open>rollback_prior\<close>.\<close>

definition first_period_entry :: HistoryEntry where
  "first_period_entry =
     \<lparr>version = ''1.21.120.0'',
      windows = ''https://www.minecraft.net/bedrockdedicatedserver/bin-win/bedrock-server-1.21.120.0.zip'',
      linux = ''https://www.minecraft.net/bedrockdedicatedserver/bin-linux/bedrock-server-1.21.120.0.zip'',
      releasedAt = ''2025-11-15T00:00:00.000Z'', type = Stable\<rparr>"

text \<open>A disk whose only file throws in the \<open>try\<close> block of \<open>loadExistingData\<close>.\<close>

definition example_disk :: "string \<Rightarrow> VersionData stored" where
  "example_disk path = (if path = ''/repo/versions.json'' then Unparsable else NoFile)"

section \<open>Properties of the duplicate filter\<close>

lemma findIndexFrom_eq:
  "findIndexFrom p i xs =
     (if \<exists>x\<in>set xs. p x then i + int (length (takeWhile (\<lambda>x. \<not> p x) xs)) else -1)"
proof (induction xs arbitrary: i)
  case Nil then show ?case by simp
next
  case (Cons y ys)
  show ?case
  proof (cases "p y")
    case True then show ?thesis by simp
  next
    case False
    then show ?thesis using Cons.IH[of "i + 1"] by simp
  qed
qed

lemma takeWhile_short: "y \<in> set xs \<Longrightarrow> \<not> P y \<Longrightarrow> length (takeWhile P xs) < length xs"
  by (induction xs) auto

lemma findIndex_first:
  assumes "p x"
  shows "findIndex p (pre @ x # xs) = int (length pre) \<longleftrightarrow> (\<forall>y\<in>set pre. \<not> p y)"
proof (cases "\<forall>y\<in>set pre. \<not> p y")
  case True
  then have "takeWhile (\<lambda>x. \<not> p x) (pre @ x # xs) = pre"
    using assms by (simp add: takeWhile_append2)
  then show ?thesis
    using True assms by (simp add: findIndex_def findIndexFrom_eq)
next
  case False
  then obtain y where y: "y \<in> set pre" "\<not> \<not> p y" by auto
  then have "takeWhile (\<lambda>x. \<not> p x) (pre @ x # xs) = takeWhile (\<lambda>x. \<not> p x) pre"
    by (rule takeWhile_append1)
  moreover have "length (takeWhile (\<lambda>x. \<not> p x) pre) < length pre"
    using y by (intro takeWhile_short[of y]) auto
  ultimately show ?thesis
    using False assms by (simp add: findIndex_def findIndexFrom_eq)
qed

lemma dedupSeen_cong: "set seen = set seen' \<Longrightarrow> dedupSeen seen xs = dedupSeen seen' xs"
proof (induction xs arbitrary: seen seen')
  case Nil then show ?case by simp
next
  case (Cons x xs)
  have "set (entryKey x # seen) = set (entryKey x # seen')" using Cons.prems by simp
  from Cons.IH[OF this] Cons.IH[OF Cons.prems] Cons.prems show ?case by simp
qed

lemma dedupSeen_snoc: "dedupSeen (seen @ [k]) xs = dedupSeen (k # seen) xs"
  by (rule dedupSeen_cong) auto

lemma filterFrom_dedupSeen:
  "filterFrom (\<lambda>entry index self.
          index = findIndex (\<lambda>e. type e = type entry \<and> version e = version entry) self)
      (int (length pre)) (pre @ xs) xs = dedupSeen (map entryKey pre) xs"
proof (induction xs arbitrary: pre)
  case Nil then show ?case by simp
next
  case (Cons x xs)
  have split: "pre @ x # xs = (pre @ [x]) @ xs" by simp
  have len: "int (length pre) + 1 = int (length (pre @ [x]))" by simp
  have first: "(int (length pre) = findIndex (\<lambda>e. type e = type x \<and> version e = version x) (pre @ x # xs))
      \<longleftrightarrow> entryKey x \<notin> set (map entryKey pre)"
    using findIndex_first[of "\<lambda>e. type e = type x \<and> version e = version x" x pre xs]
    by (force simp: entryKey_def image_iff)
  have IH: "filterFrom (\<lambda>entry index self.
          index = findIndex (\<lambda>e. type e = type entry \<and> version e = version entry) self)
      (int (length pre) + 1) (pre @ x # xs) xs = dedupSeen (map entryKey pre @ [entryKey x]) xs"
    using Cons.IH[of "pre @ [x]"] by (simp add: add.commute)
  have absorb: "entryKey x \<in> set (map entryKey pre) \<Longrightarrow>
      dedupSeen (entryKey x # map entryKey pre) xs = dedupSeen (map entryKey pre) xs"
    by (rule dedupSeen_cong) auto
  show ?case
    using first IH absorb by (simp add: dedupSeen_snoc)
qed


lemma uniqueHistory_dedupSeen: "uniqueHistory xs = dedupSeen [] xs"
  using filterFrom_dedupSeen[of "[]" xs] by (simp add: uniqueHistory_def filter_indexed_def)

lemma dedupSeen_keys: "set (map entryKey (dedupSeen seen xs)) = set (map entryKey xs) - set seen"
  by (induction xs arbitrary: seen) auto

lemma dedupSeen_distinct: "distinct (map entryKey (dedupSeen seen xs))"
  by (induction xs arbitrary: seen) (auto simp: dedupSeen_keys[simplified])

lemma dedupSeen_subset: "set (dedupSeen seen xs) \<subseteq> set xs"
  by (induction xs arbitrary: seen) auto

lemma dedupSeen_id:
  "distinct (map entryKey xs) \<Longrightarrow> set (map entryKey xs) \<inter> set seen = {} \<Longrightarrow> dedupSeen seen xs = xs"
  by (induction xs arbitrary: seen) auto

lemma dedupSeen_mem:
  "e \<in> set (dedupSeen seen xs) \<longleftrightarrow>
     entryKey e \<notin> set seen \<and> find (\<lambda>x. entryKey x = entryKey e) xs = Some e"
  by (induction xs arbitrary: seen) auto

lemma uniqueHistory_mem:
  "e \<in> set (uniqueHistory xs) \<longleftrightarrow> find (\<lambda>x. entryKey x = entryKey e) xs = Some e"
  by (simp add: uniqueHistory_dedupSeen dedupSeen_mem)


lemma mset_insertSorted: "mset (insertSorted cmp x ys) = add_mset x (mset ys)"
  by (induction ys) auto

lemma mset_array_sort: "mset (array_sort cmp xs) = mset xs"
  by (induction xs) (auto simp: array_sort_def mset_insertSorted)

lemma set_array_sort: "set (array_sort cmp xs) = set xs"
  using mset_array_sort[of cmp xs] by (metis set_mset_mset)

lemma distinct_keys_array_sort:
  "distinct (map f (array_sort cmp xs)) = distinct (map f xs)"
proof -
  have "mset (map f (array_sort cmp xs)) = mset (map f xs)"
    by (simp add: mset_array_sort)
  then show ?thesis by (rule mset_eq_imp_distinct_iff)
qed

lemma array_sort_id: "successively (notAfter cmp) xs \<Longrightarrow> array_sort cmp xs = xs"
proof (induction xs)
  case Nil then show ?case by (simp add: array_sort_def)
next
  case (Cons x xs)
  have tl: "successively (notAfter cmp) xs" using Cons.prems by (cases xs) auto
  have "array_sort cmp (x # xs) = insertSorted cmp x (array_sort cmp xs)"
    by (simp add: array_sort_def)
  also have "\<dots> = insertSorted cmp x xs" using Cons.IH[OF tl] by simp
  also have "\<dots> = x # xs" using Cons.prems by (cases xs) (auto simp: notAfter_def)
  finally show ?case .
qed

lemma filter_insertSorted:
  assumes "\<And>y. P x \<Longrightarrow> P y \<Longrightarrow> \<not> sortCompare cmp x y > 0"
  shows "filter P (insertSorted cmp x ys) = filter P (x # ys)"
  using assms by (induction ys) auto

lemma filter_array_sort:
  assumes "\<And>x y. P x \<Longrightarrow> P y \<Longrightarrow> \<not> sortCompare cmp x y > 0"
  shows "filter P (array_sort cmp xs) = filter P xs"
proof (induction xs)
  case Nil then show ?case by (simp add: array_sort_def)
next
  case (Cons x xs)
  have "array_sort cmp (x # xs) = insertSorted cmp x (array_sort cmp xs)"
    by (simp add: array_sort_def)
  then have "filter P (array_sort cmp (x # xs)) = filter P (x # array_sort cmp xs)"
    using filter_insertSorted[of P x cmp "array_sort cmp xs"] assms by simp
  then show ?case using Cons.IH by simp
qed

lemma sorted_insertSorted:
  assumes "\<forall>e\<in>set (x # ys). getTime (releasedAt e) \<noteq> None"
    and "sorted_wrt (newerOrSame getTime) ys"
  shows "sorted_wrt (newerOrSame getTime) (insertSorted (compareFn getTime) x ys)"
  using assms
proof (induction ys)
  case Nil then show ?case by simp
next
  case (Cons y ys)
  have set_ins: "set (insertSorted (compareFn getTime) x ys) = insert x (set ys)"
    using mset_insertSorted[of "compareFn getTime" x ys] by (metis set_mset_mset set_mset_add_mset_insert)
  show ?case
  proof (cases "sortCompare (compareFn getTime) x y > 0")
    case True
    then have "newerOrSame getTime y x"
      by (auto simp: sortCompare_def compareFn_def newerOrSame_def split: option.splits)
    then show ?thesis using True Cons set_ins by auto
  next
    case False
    then have xy: "newerOrSame getTime x y" using Cons.prems(1)
      by (auto simp: sortCompare_def compareFn_def newerOrSame_def split: option.splits)
    have "\<forall>z\<in>set ys. newerOrSame getTime x z"
    proof
      fix z assume "z \<in> set ys"
      then have "newerOrSame getTime y z" using Cons.prems(2) by simp
      with xy show "newerOrSame getTime x z"
        by (auto simp: newerOrSame_def split: option.splits)
    qed
    then show ?thesis using False xy Cons.prems(2) by simp
  qed
qed

lemma sorted_array_sort:
  "\<forall>e\<in>set xs. getTime (releasedAt e) \<noteq> None \<Longrightarrow>
   sorted_wrt (newerOrSame getTime) (array_sort (compareFn getTime) xs)"
proof (induction xs)
  case Nil then show ?case by (simp add: array_sort_def)
next
  case (Cons x xs)
  have step: "array_sort (compareFn getTime) (x # xs) =
      insertSorted (compareFn getTime) x (array_sort (compareFn getTime) xs)"
    by (simp add: array_sort_def)
  have "\<forall>e\<in>set (x # array_sort (compareFn getTime) xs). getTime (releasedAt e) \<noteq> None"
    using Cons.prems by (simp add: set_array_sort)
  moreover have "sorted_wrt (newerOrSame getTime) (array_sort (compareFn getTime) xs)"
    using Cons by simp
  ultimately show ?case unfolding step by (rule sorted_insertSorted)
qed

lemma newerOrSame_notAfter:
  "newerOrSame getTime a b \<Longrightarrow> notAfter (compareFn getTime) a b"
  by (auto simp: newerOrSame_def notAfter_def sortCompare_def compareFn_def split: option.splits)

lemma array_sort_sorted:
  assumes "sorted_wrt (newerOrSame getTime) xs"
  shows "array_sort (compareFn getTime) xs = xs"
proof -
  have "successively (newerOrSame getTime) xs"
    using assms by (rule successively_if_sorted_wrt)
  then have "successively (notAfter (compareFn getTime)) xs"
    by (rule successively_mono) (rule newerOrSame_notAfter)
  then show ?thesis by (rule array_sort_id)
qed

lemma same_time_stable:
  "filter (\<lambda>e. getTime (releasedAt e) = Some t) (array_sort (compareFn getTime) xs)
   = filter (\<lambda>e. getTime (releasedAt e) = Some t) xs"
  by (rule filter_array_sort) (simp add: sortCompare_def compareFn_def)


section \<open>Properties of the reconciliation\<close>

lemma reconcile_absent:
  "reconcile getTime fetched None = (\<lparr>latest = fetched, history = []\<rparr>, True)"
  by (simp add: reconcile_def compareWithExisting_def uniqueHistory_def filter_indexed_def
      array_sort_def)

lemma newHistory_absent: "newHistory (compareWithExisting fetched None) = []"
  by (simp add: compareWithExisting_def)

lemma newHistory_present:
  "newHistory (compareWithExisting fetched (Some d)) = history d @ pushed fetched d"
  by (simp add: compareWithExisting_def stableStep_def previewStep_def pushed_def Let_def)

lemma hasChanges_present:
  "hasChanges (compareWithExisting fetched (Some d)) =
     (version (stable (latest d)) \<noteq> version (stable fetched)
      \<or> version (preview (latest d)) \<noteq> version (preview fetched))"
  by (simp add: compareWithExisting_def stableStep_def previewStep_def Let_def)

lemma latestVersions_present:
  "latestVersions (compareWithExisting fetched (Some d)) =
     \<lparr>stable = (if version (stable (latest d)) \<noteq> version (stable fetched) then stable fetched
                else (stable fetched)\<lparr>releasedAt := releasedAt (stable (latest d))\<rparr>),
      preview = (if version (preview (latest d)) \<noteq> version (preview fetched) then preview fetched
                else (preview fetched)\<lparr>releasedAt := releasedAt (preview (latest d))\<rparr>)\<rparr>"
  by (simp add: compareWithExisting_def stableStep_def previewStep_def Let_def)

lemma history_reconcile:
  "history (fst (reconcile getTime fetched existingData)) =
     array_sort (compareFn getTime) (uniqueHistory (newHistory (compareWithExisting fetched existingData)))"
  by (simp add: reconcile_def Let_def)

lemma latest_reconcile:
  "latest (fst (reconcile getTime fetched existingData)) =
     latestVersions (compareWithExisting fetched existingData)"
  by (simp add: reconcile_def Let_def)

lemma changed_reconcile:
  "snd (reconcile getTime fetched existingData) = hasChanges (compareWithExisting fetched existingData)"
  by (simp add: reconcile_def Let_def)

lemma find_first_distinct:
  "distinct (map f xs) \<Longrightarrow> e \<in> set xs \<Longrightarrow> find (\<lambda>x. f x = f e) (xs @ ys) = Some e"
  by (induction xs) (auto simp: image_iff)

lemma channelOf_latest_present:
  "channelOf c (latestVersions (compareWithExisting fetched (Some d))) =
     (if version (channelOf c (latest d)) \<noteq> version (channelOf c fetched) then channelOf c fetched
      else (channelOf c fetched)\<lparr>releasedAt := releasedAt (channelOf c (latest d))\<rparr>)"
  by (cases c) (simp_all add: latestVersions_present)

lemma releasedAt_fetchLatestVersions:
  "releasedAt (channelOf c (fetchLatestVersions links now)) = now"
  by (cases c) (simp_all add: fetchLatestVersions_def Let_def)



section \<open>Properties of the pattern matcher\<close>

lemma langOfD: "langOf r A \<Longrightarrow> ((t, c') \<in> set (rmatch r (s, c))) = (c' = c \<and> (\<exists>u. A u \<and> s = u @ t))"
  by (simp add: langOf_def)

lemma take_is_prefix: "(take (length l) s = l) = (\<exists>t. s = l @ t)"
  by (metis append_eq_conv_conj append_take_drop_id)

lemma langOf_Lit: "langOf (Lit l) (\<lambda>u. u = l)"
  unfolding langOf_def
proof (intro allI)
  fix s c t c'
  show "((t, c') \<in> set (rmatch (Lit l) (s, c))) = (c' = c \<and> (\<exists>u. u = l \<and> s = u @ t))"
  proof (cases "take (length l) s = l")
    case True
    then obtain r where r: "s = l @ r" using take_is_prefix by blast
    then show ?thesis by auto
  next
    case False
    then have "\<not> (\<exists>t. s = l @ t)" using take_is_prefix by blast
    with False show ?thesis by auto
  qed
qed

lemma langOf_Seq:
  assumes "langOf a A" and "langOf b B"
  shows "langOf (Seq a b) (\<lambda>w. \<exists>u v. A u \<and> B v \<and> w = u @ v)"
  unfolding langOf_def
proof (intro allI)
  fix s c t c'
  have "((t, c') \<in> set (rmatch (Seq a b) (s, c)))
      = (\<exists>m cm. (m, cm) \<in> set (rmatch a (s, c)) \<and> (t, c') \<in> set (rmatch b (m, cm)))"
    by auto
  also have "\<dots> = (\<exists>m. (\<exists>u. A u \<and> s = u @ m) \<and> c' = c \<and> (\<exists>v. B v \<and> m = v @ t))"
    using langOfD[OF assms(1)] langOfD[OF assms(2)] by auto
  also have "\<dots> = (c' = c \<and> (\<exists>w. (\<exists>u v. A u \<and> B v \<and> w = u @ v) \<and> s = w @ t))"
  proof -
    have "(\<exists>m. (\<exists>u. A u \<and> s = u @ m) \<and> (\<exists>v. B v \<and> m = v @ t))
        = (\<exists>w. (\<exists>u v. A u \<and> B v \<and> w = u @ v) \<and> s = w @ t)"
    proof
      assume "\<exists>m. (\<exists>u. A u \<and> s = u @ m) \<and> (\<exists>v. B v \<and> m = v @ t)"
      then obtain m u v where "A u" "s = u @ m" "B v" "m = v @ t" by blast
      then have "(\<exists>u' v'. A u' \<and> B v' \<and> u @ v = u' @ v') \<and> s = (u @ v) @ t" by auto
      then show "\<exists>w. (\<exists>u v. A u \<and> B v \<and> w = u @ v) \<and> s = w @ t" by blast
    next
      assume "\<exists>w. (\<exists>u v. A u \<and> B v \<and> w = u @ v) \<and> s = w @ t"
      then obtain u v where "A u" "B v" "s = (u @ v) @ t" by blast
      then have "(\<exists>u'. A u' \<and> s = u' @ (v @ t)) \<and> (\<exists>v'. B v' \<and> v @ t = v' @ t)" by auto
      then show "\<exists>m. (\<exists>u. A u \<and> s = u @ m) \<and> (\<exists>v. B v \<and> m = v @ t)" by blast
    qed
    then show ?thesis by blast
  qed
  finally show "((t, c') \<in> set (rmatch (Seq a b) (s, c)))
      = (c' = c \<and> (\<exists>w. (\<exists>u v. A u \<and> B v \<and> w = u @ v) \<and> s = w @ t))" .
qed

lemma star_Digit:
  "length s \<le> k \<Longrightarrow>
   set (star (rmatch Digit) k (s, c)) = {(t, c) | t. \<exists>n. list_all isDigit n \<and> s = n @ t}"
proof (induction k arbitrary: s)
  case 0
  then show ?case by auto
next
  case (Suc k)
  show ?case
  proof (cases s)
    case Nil
    then show ?thesis by auto
  next
    case (Cons x xs)
    show ?thesis
    proof (cases "isDigit x")
      case False
      have "{(t, c) | t. \<exists>n. list_all isDigit n \<and> x # xs = n @ t} = {(x # xs, c)}"
      proof -
        have "n = []" if "list_all isDigit n" "x # xs = n @ t" for n t
          using that False by (cases n) auto
        then show ?thesis by (auto intro: exI[of _ "[]"])
      qed
      then show ?thesis using False Cons by simp
    next
      case True
      have len: "length xs \<le> k" using Suc.prems Cons by simp
      have "set (star (rmatch Digit) (Suc k) (s, c)) = set (star (rmatch Digit) k (xs, c)) \<union> {(s, c)}"
        using True Cons by simp
      also have "\<dots> = {(t, c) | t. \<exists>n. list_all isDigit n \<and> xs = n @ t} \<union> {(s, c)}"
        using Suc.IH[OF len] by simp
      also have "\<dots> = {(t, c) | t. \<exists>n. list_all isDigit n \<and> s = n @ t}"
      proof (intro equalityI subsetI)
        fix p assume "p \<in> {(t, c) | t. \<exists>n. list_all isDigit n \<and> xs = n @ t} \<union> {(s, c)}"
        then consider (a) t n where "p = (t, c)" "list_all isDigit n" "xs = n @ t" | (b) "p = (s, c)"
          by auto
        then show "p \<in> {(t, c) | t. \<exists>n. list_all isDigit n \<and> s = n @ t}"
        proof cases
          case a
          then have "list_all isDigit (x # n) \<and> s = (x # n) @ t" using True Cons by simp
          with a(1) show ?thesis by blast
        next
          case b
          have "list_all isDigit [] \<and> s = [] @ s" by simp
          with b show ?thesis by blast
        qed
      next
        fix p assume "p \<in> {(t, c) | t. \<exists>n. list_all isDigit n \<and> s = n @ t}"
        then obtain t n where p: "p = (t, c)" "list_all isDigit n" "s = n @ t" by auto
        show "p \<in> {(t, c) | t. \<exists>n. list_all isDigit n \<and> xs = n @ t} \<union> {(s, c)}"
        proof (cases n)
          case Nil
          then show ?thesis using p by simp
        next
          case (Cons y ys)
          then have "list_all isDigit ys \<and> xs = ys @ t" using p \<open>s = x # xs\<close> by simp
          then show ?thesis using p(1) by blast
        qed
      qed
      finally show ?thesis .
    qed
  qed
qed

lemma langOf_PlusDigit: "langOf (Plus Digit) isNumber"
  unfolding langOf_def
proof (intro allI)
  fix s c t c'
  show "((t, c') \<in> set (rmatch (Plus Digit) (s, c))) = (c' = c \<and> (\<exists>u. isNumber u \<and> s = u @ t))"
  proof (cases s)
    case Nil
    then show ?thesis by (simp add: isNumber_def)
  next
    case (Cons x xs)
    show ?thesis
    proof (cases "isDigit x")
      case False
      have "\<not> (\<exists>u. isNumber u \<and> s = u @ t)"
      proof
        assume "\<exists>u. isNumber u \<and> s = u @ t"
        then obtain u where "isNumber u" "s = u @ t" by blast
        then have "isDigit x" using Cons by (cases u) (auto simp: isNumber_def)
        with False show False by simp
      qed
      then show ?thesis using False Cons by simp
    next
      case True
      have "((t, c') \<in> set (rmatch (Plus Digit) (s, c))) = ((t, c') \<in> set (star (rmatch Digit) (length xs) (xs, c)))"
        using True Cons by simp
      also have "\<dots> = (c' = c \<and> (\<exists>n. list_all isDigit n \<and> xs = n @ t))"
        using star_Digit[of xs "length xs" c] by auto
      also have "\<dots> = (c' = c \<and> (\<exists>u. isNumber u \<and> s = u @ t))"
      proof -
        have "(\<exists>n. list_all isDigit n \<and> xs = n @ t) = (\<exists>u. isNumber u \<and> s = u @ t)"
        proof
          assume "\<exists>n. list_all isDigit n \<and> xs = n @ t"
          then obtain n where "list_all isDigit n" "xs = n @ t" by blast
          then have "isNumber (x # n) \<and> s = (x # n) @ t" using True Cons by (simp add: isNumber_def)
          then show "\<exists>u. isNumber u \<and> s = u @ t" by blast
        next
          assume "\<exists>u. isNumber u \<and> s = u @ t"
          then obtain u where u: "isNumber u" "s = u @ t" by blast
          then obtain y ys where "u = y # ys" by (cases u) (auto simp: isNumber_def)
          with u Cons have "list_all isDigit ys \<and> xs = ys @ t" by (simp add: isNumber_def)
          then show "\<exists>n. list_all isDigit n \<and> xs = n @ t" by blast
        qed
        then show ?thesis by simp
      qed
      finally show ?thesis .
    qed
  qed
qed

lemma repeat_1_2:
  "set (repeat f 1 2 st) =
     (\<Union>m\<in>set (f st). insert m {x \<in> set (f m). length (fst x) < length (fst m)})"
proof -
  have one: "repeat f 0 (Suc 0) m = filter (\<lambda>st'. length (fst st') < length (fst m)) (f m) @ [m]" for m
  proof -
    have "repeat f 0 0 = (\<lambda>x. [x])" by (rule ext) simp
    then show ?thesis by simp
  qed
  have "repeat f 1 2 st = concat (map (repeat f 0 (Suc 0)) (f st))"
    by (simp add: numeral_2_eq_2)
  then show ?thesis using one by auto
qed

lemma langOf_Rep12:
  assumes "langOf a A" and nonempty: "\<And>u. A u \<Longrightarrow> u \<noteq> []"
  shows "langOf (Rep 1 2 a) (\<lambda>w. A w \<or> (\<exists>u v. A u \<and> A v \<and> w = u @ v))"
  unfolding langOf_def
proof (intro allI)
  fix s c t c'
  have step: "rmatch (Rep 1 2 a) (s, c) = repeat (rmatch a) 1 2 (s, c)"
    by (simp only: rmatch.simps)
  have "((t, c') \<in> set (rmatch (Rep 1 2 a) (s, c)))
      = ((t, c') \<in> (\<Union>m\<in>set (rmatch a (s, c)).
            insert m {x \<in> set (rmatch a m). length (fst x) < length (fst m)}))"
    by (simp only: step repeat_1_2)
  also have "\<dots>
      = (\<exists>m cm. (m, cm) \<in> set (rmatch a (s, c)) \<and>
           ((t, c') = (m, cm) \<or> ((t, c') \<in> set (rmatch a (m, cm)) \<and> length t < length m)))"
    by (auto, blast)
  also have "\<dots> = (c' = c \<and> (\<exists>m. (\<exists>u. A u \<and> s = u @ m) \<and>
           (t = m \<or> ((\<exists>v. A v \<and> m = v @ t) \<and> length t < length m))))"
    using langOfD[OF assms(1)] by auto
  also have "\<dots> = (c' = c \<and> (\<exists>w. (A w \<or> (\<exists>u v. A u \<and> A v \<and> w = u @ v)) \<and> s = w @ t))"
  proof -
    have "(\<exists>m. (\<exists>u. A u \<and> s = u @ m) \<and> (t = m \<or> ((\<exists>v. A v \<and> m = v @ t) \<and> length t < length m)))
        = (\<exists>w. (A w \<or> (\<exists>u v. A u \<and> A v \<and> w = u @ v)) \<and> s = w @ t)"
    proof
      assume "\<exists>m. (\<exists>u. A u \<and> s = u @ m) \<and> (t = m \<or> ((\<exists>v. A v \<and> m = v @ t) \<and> length t < length m))"
      then obtain m u where mu: "A u" "s = u @ m"
        and alt: "t = m \<or> ((\<exists>v. A v \<and> m = v @ t) \<and> length t < length m)" by blast
      from alt show "\<exists>w. (A w \<or> (\<exists>u v. A u \<and> A v \<and> w = u @ v)) \<and> s = w @ t"
      proof
        assume "t = m"
        with mu show ?thesis by blast
      next
        assume "(\<exists>v. A v \<and> m = v @ t) \<and> length t < length m"
        then obtain v where "A v" "m = v @ t" by blast
        with mu have "(\<exists>u' v'. A u' \<and> A v' \<and> u @ v = u' @ v') \<and> s = (u @ v) @ t" by auto
        then show ?thesis by blast
      qed
    next
      assume "\<exists>w. (A w \<or> (\<exists>u v. A u \<and> A v \<and> w = u @ v)) \<and> s = w @ t"
      then obtain w where w: "A w \<or> (\<exists>u v. A u \<and> A v \<and> w = u @ v)" "s = w @ t" by blast
      from w(1) show "\<exists>m. (\<exists>u. A u \<and> s = u @ m) \<and> (t = m \<or> ((\<exists>v. A v \<and> m = v @ t) \<and> length t < length m))"
      proof
        assume "A w"
        with w(2) show ?thesis by blast
      next
        assume "\<exists>u v. A u \<and> A v \<and> w = u @ v"
        then obtain u v where uv: "A u" "A v" "w = u @ v" by blast
        have "v \<noteq> []" using nonempty[OF uv(2)] .
        then have "length t < length (v @ t)" by simp
        moreover have "s = u @ (v @ t)" using uv(3) w(2) by simp
        ultimately have "(\<exists>u'. A u' \<and> s = u' @ (v @ t))
            \<and> (t = v @ t \<or> ((\<exists>v'. A v' \<and> v @ t = v' @ t) \<and> length t < length (v @ t)))"
          using uv(1,2) by blast
        then show ?thesis by blast
      qed
    qed
    then show ?thesis by simp
  qed
  finally show "((t, c') \<in> set (rmatch (Rep 1 2 a) (s, c)))
      = (c' = c \<and> (\<exists>w. (A w \<or> (\<exists>u v. A u \<and> A v \<and> w = u @ v)) \<and> s = w @ t))" .
qed

lemma rmatch_Group:
  assumes "langOf a A"
  shows "((t, c') \<in> set (rmatch (Group a) (s, c))) = (\<exists>u. A u \<and> s = u @ t \<and> c' = Some u)"
proof -
  have inner: "((m, cm) \<in> set (rmatch a (s, c))) = (cm = c \<and> (\<exists>u. A u \<and> s = u @ m))" for m cm
    by (rule langOfD[OF assms])
  have "((t, c') \<in> set (rmatch (Group a) (s, c)))
      = (\<exists>m cm. (m, cm) \<in> set (rmatch a (s, c)) \<and> t = m \<and> c' = Some (take (length s - length m) s))"
    by (force simp: image_iff)
  also have "\<dots> = ((\<exists>u. A u \<and> s = u @ t) \<and> c' = Some (take (length s - length t) s))"
    unfolding inner by blast
  also have "\<dots> = (\<exists>u. A u \<and> s = u @ t \<and> c' = Some u)"
    by auto
  finally show ?thesis .
qed

lemma dotNumber_fun: "dotNumber = (\<lambda>p. \<exists>u v. u = ''.'' \<and> isNumber v \<and> p = u @ v)"
  by (rule ext) (simp only: dotNumber_def)

lemma langOf_dotNumber: "langOf (Seq (Lit ''.'') (Plus Digit)) dotNumber"
  unfolding dotNumber_fun by (rule langOf_Seq[OF langOf_Lit langOf_PlusDigit])

lemma langOf_body_raw:
  "langOf versionBody
     (\<lambda>w. \<exists>u v. isNumber u \<and> (\<exists>ua va. ua = ''.'' \<and> (\<exists>ub vb. isNumber ub \<and>
         (dotNumber vb \<or> (\<exists>p q. dotNumber p \<and> dotNumber q \<and> vb = p @ q)) \<and> va = ub @ vb) \<and> v = ua @ va)
         \<and> w = u @ v)"
  unfolding versionBody_def
  by (intro langOf_Seq langOf_PlusDigit langOf_Lit langOf_Rep12 langOf_dotNumber)
     (auto simp: dotNumber_def)

lemma body_lang_eq:
  "(\<exists>u v. isNumber u \<and> (\<exists>ua va. ua = ''.'' \<and> (\<exists>ub vb. isNumber ub \<and>
         (dotNumber vb \<or> (\<exists>p q. dotNumber p \<and> dotNumber q \<and> vb = p @ q)) \<and> va = ub @ vb) \<and> v = ua @ va)
         \<and> w = u @ v) = dottedNumber w"
  unfolding dottedNumber_def dotNumber_def
  by (intro iffI; elim exE conjE disjE; force)

lemma langOf_body: "langOf versionBody dottedNumber"
proof -
  have "dottedNumber = (\<lambda>w. \<exists>u v. isNumber u \<and> (\<exists>ua va. ua = ''.'' \<and> (\<exists>ub vb. isNumber ub \<and>
         (dotNumber vb \<or> (\<exists>p q. dotNumber p \<and> dotNumber q \<and> vb = p @ q)) \<and> va = ub @ vb) \<and> v = ua @ va)
         \<and> w = u @ v)"
    by (rule ext) (rule body_lang_eq[symmetric])
  then show ?thesis using langOf_body_raw by (simp only:)
qed

lemma rmatch_versionPattern:
  "((t, c') \<in> set (rmatch versionPattern (s, None)))
     = (\<exists>v. c' = Some v \<and> dottedNumber v \<and> s = ''bedrock-server-'' @ v @ ''.zip'' @ t)"
proof -
  have pat: "versionPattern = Seq (Lit ''bedrock-server-'') (Seq (Group versionBody) (Lit ''.zip''))"
    by (simp add: versionPattern_def versionBody_def)
  have seq: "set (rmatch (Seq a b) st) = (\<Union>m\<in>set (rmatch a st). set (rmatch b m))" for a b st
    by simp
  have lit: "((m, cm) \<in> set (rmatch (Lit l) (x, cx))) = (cm = cx \<and> x = l @ m)" for m cm l x cx
    using langOfD[OF langOf_Lit, of m cm l x cx] by auto
  have grp: "((m, cm) \<in> set (rmatch (Group versionBody) (x, cx)))
      = (\<exists>u. dottedNumber u \<and> x = u @ m \<and> cm = Some u)" for m cm x cx
    by (rule rmatch_Group[OF langOf_body])
  have "((t, c') \<in> set (rmatch versionPattern (s, None)))
      = (\<exists>m1 c1 m2 c2. (m1, c1) \<in> set (rmatch (Lit ''bedrock-server-'') (s, None))
            \<and> (m2, c2) \<in> set (rmatch (Group versionBody) (m1, c1))
            \<and> (t, c') \<in> set (rmatch (Lit ''.zip'') (m2, c2)))"
    unfolding pat by (simp only: seq UN_iff Bex_def split_paired_Ex) blast
  also have "\<dots> = (\<exists>m1 m2 u. s = ''bedrock-server-'' @ m1 \<and> dottedNumber u \<and> m1 = u @ m2
            \<and> c' = Some u \<and> m2 = ''.zip'' @ t)"
    unfolding lit grp by blast
  also have "\<dots> = (\<exists>v. c' = Some v \<and> dottedNumber v \<and> s = ''bedrock-server-'' @ v @ ''.zip'' @ t)"
    by auto
  finally show ?thesis .
qed

lemma isNumber_props: "isNumber n \<Longrightarrow> n \<noteq> [] \<and> isDigit (last n) \<and> (\<forall>ch\<in>set n. isDigit ch)"
  by (auto simp: isNumber_def list_all_iff)

lemma dottedNumber_chars:
  assumes "dottedNumber v"
  shows "v \<noteq> []" and "isDigit (last v)" and "\<forall>ch\<in>set v. isDigit ch \<or> ch = CHR ''.''"
proof -
  from assms obtain a b c where abc: "isNumber a" "isNumber b" "isNumber c"
    and shape: "v = a @ ''.'' @ b @ ''.'' @ c \<or> (\<exists>d. isNumber d \<and> v = a @ ''.'' @ b @ ''.'' @ c @ ''.'' @ d)"
    unfolding dottedNumber_def by blast
  from shape show "v \<noteq> []" using isNumber_props[OF abc(1)] by auto
  from shape show "isDigit (last v)"
  proof
    assume "v = a @ ''.'' @ b @ ''.'' @ c"
    then show ?thesis using isNumber_props[OF abc(3)] by simp
  next
    assume "\<exists>d. isNumber d \<and> v = a @ ''.'' @ b @ ''.'' @ c @ ''.'' @ d"
    then obtain d where "isNumber d" "v = a @ ''.'' @ b @ ''.'' @ c @ ''.'' @ d" by blast
    then show ?thesis using isNumber_props[of d] by simp
  qed
  from shape show "\<forall>ch\<in>set v. isDigit ch \<or> ch = CHR ''.''"
  proof
    assume "v = a @ ''.'' @ b @ ''.'' @ c"
    then show ?thesis
      using isNumber_props[OF abc(1)] isNumber_props[OF abc(2)] isNumber_props[OF abc(3)] by auto
  next
    assume "\<exists>d. isNumber d \<and> v = a @ ''.'' @ b @ ''.'' @ c @ ''.'' @ d"
    then obtain d where "isNumber d" "v = a @ ''.'' @ b @ ''.'' @ c @ ''.'' @ d" by blast
    then show ?thesis
      using isNumber_props[OF abc(1)] isNumber_props[OF abc(2)] isNumber_props[OF abc(3)]
        isNumber_props[of d] by auto
  qed
qed

lemma zip_not_inside:
  assumes "dottedNumber v" and "v = w @ us" and "us @ ''.zip'' @ t = ''.zip'' @ t'"
  shows "us = []"
proof (cases us)
  case Nil
  then show ?thesis .
next
  case (Cons x us')
  have nd: "\<not> isDigit CHR ''.''" and nz: "\<not> isDigit CHR ''z''"
    by (simp_all add: isDigit_def)
  from assms(3) have x: "x = CHR ''.''" and rest: "us' @ ''.zip'' @ t = ''zip'' @ t'"
    unfolding Cons by simp_all
  show ?thesis
  proof (cases us')
    case Nil
    have "last v = CHR ''.''" unfolding assms(2) Cons Nil x by simp
    with dottedNumber_chars(2)[OF assms(1)] nd show ?thesis by simp
  next
    case (Cons y ys)
    from rest have "y = CHR ''z''" unfolding Cons by simp
    then have "CHR ''z'' \<in> set v" unfolding assms(2) \<open>us = x # us'\<close> Cons by simp
    with dottedNumber_chars(3)[OF assms(1)] have "isDigit CHR ''z'' \<or> CHR ''z'' = CHR ''.''"
      by (rule bspec)
    with nz show ?thesis by simp
  qed
qed

lemma capture_unique:
  assumes "dottedNumber v" and "dottedNumber w" and "v @ ''.zip'' @ t = w @ ''.zip'' @ t'"
  shows "v = w"
proof -
  from assms(3) obtain us where
    "(v = w @ us \<and> us @ ''.zip'' @ t = ''.zip'' @ t') \<or> (v @ us = w \<and> ''.zip'' @ t = us @ ''.zip'' @ t')"
    unfolding append_eq_append_conv2 by blast
  then show ?thesis
  proof
    assume a: "v = w @ us \<and> us @ ''.zip'' @ t = ''.zip'' @ t'"
    then have "v = w @ us" and "us @ ''.zip'' @ t = ''.zip'' @ t'" by simp_all
    then have "us = []" by (rule zip_not_inside[OF assms(1)])
    with a show ?thesis by simp
  next
    assume a: "v @ us = w \<and> ''.zip'' @ t = us @ ''.zip'' @ t'"
    then have "w = v @ us" and "us @ ''.zip'' @ t' = ''.zip'' @ t" by simp_all
    then have "us = []" by (rule zip_not_inside[OF assms(2)])
    with a show ?thesis by simp
  qed
qed

lemma regexExec_None:
  "regexExec r url = None \<Longrightarrow> url = pre @ s \<Longrightarrow> rmatch r (s, None) = []"
proof (induction url arbitrary: pre)
  case Nil
  then show ?case by (simp split: list.splits)
next
  case (Cons x xs)
  from Cons.prems(1) have here: "rmatch r (x # xs, None) = []" and rest: "regexExec r xs = None"
    by (simp_all split: list.splits)
  show ?case
  proof (cases pre)
    case Nil
    with Cons.prems(2) here show ?thesis by simp
  next
    case (Cons y ys)
    with Cons.prems(2) have "xs = ys @ s" by simp
    from Cons.IH[OF rest this] show ?thesis .
  qed
qed

lemma regexExec_Some:
  "regexExec r url = Some c \<Longrightarrow>
   \<exists>pre s st rest. url = pre @ s \<and> rmatch r (s, None) = st # rest \<and> snd st = c
      \<and> (\<forall>pre' s'. url = pre' @ s' \<and> length pre' < length pre \<longrightarrow> rmatch r (s', None) = [])"
proof (induction url)
  case Nil
  show ?case
  proof (cases "rmatch r ([], None)")
    case Nil
    with \<open>regexExec r [] = Some c\<close> show ?thesis by simp
  next
    case (Cons st rest)
    with \<open>regexExec r [] = Some c\<close> have c: "snd st = c" by simp
    show ?thesis
      by (rule exI[of _ "[]"], rule exI[of _ "[]"], rule exI[of _ st], rule exI[of _ rest])
         (simp add: Cons c)
  qed
next
  case (Cons x xs)
  show ?case
  proof (cases "rmatch r (x # xs, None)")
    case (Cons st rest)
    with Cons.prems have c: "snd st = c" by simp
    show ?thesis
      by (rule exI[of _ "[]"], rule exI[of _ "x # xs"], rule exI[of _ st], rule exI[of _ rest])
         (simp add: Cons c)
  next
    case Nil
    with Cons.prems have "regexExec r xs = Some c" by simp
    from Cons.IH[OF this] obtain pre s st rest where
      ih: "xs = pre @ s" "rmatch r (s, None) = st # rest" "snd st = c"
      and ih4: "\<And>pre' s'. xs = pre' @ s' \<Longrightarrow> length pre' < length pre \<Longrightarrow> rmatch r (s', None) = []"
      by blast
    have left: "rmatch r (s', None) = []"
      if a: "x # xs = pre' @ s'" "length pre' < length (x # pre)" for pre' s'
    proof (cases pre')
      case Nil
      with a have "s' = x # xs" by simp
      with \<open>rmatch r (x # xs, None) = []\<close> show ?thesis by simp
    next
      case (Cons y ys)
      with a have "xs = ys @ s'" and "length ys < length pre" by simp_all
      then show ?thesis by (rule ih4)
    qed
    have "x # xs = (x # pre) @ s" using ih(1) by simp
    then show ?thesis
      by (intro exI[of _ "x # pre"] exI[of _ s] exI[of _ st] exI[of _ rest] conjI allI impI)
         (simp_all add: ih left)
  qed
qed

lemma occurs_matches:
  assumes "occursAt url pre v"
  obtains post where "url = pre @ ''bedrock-server-'' @ v @ ''.zip'' @ post"
    and "(post, Some v) \<in> set (rmatch versionPattern (''bedrock-server-'' @ v @ ''.zip'' @ post, None))"
proof -
  from assms obtain post where d: "dottedNumber v"
    and u: "url = pre @ ''bedrock-server-'' @ v @ ''.zip'' @ post"
    unfolding occursAt_def by blast
  have "(post, Some v) \<in> set (rmatch versionPattern (''bedrock-server-'' @ v @ ''.zip'' @ post, None))"
    unfolding rmatch_versionPattern using d by blast
  with u show ?thesis by (rule that)
qed

lemma first_match_occurs:
  assumes "rmatch versionPattern (s, None) = st # rest"
  obtains v t where "snd st = Some v" and "dottedNumber v"
    and "s = ''bedrock-server-'' @ v @ ''.zip'' @ t"
proof -
  have "(fst st, snd st) \<in> set (rmatch versionPattern (s, None))"
    using assms by simp
  then obtain v where "snd st = Some v" "dottedNumber v"
      "s = ''bedrock-server-'' @ v @ ''.zip'' @ fst st"
    unfolding rmatch_versionPattern by blast
  then show ?thesis by (rule that)
qed

lemma extractVersion_capture:
  assumes "extractVersion url = Some v"
  shows "patternCapture url v"
proof -
  from assms have "regexExec versionPattern url = Some (Some v)"
    by (simp add: extractVersion_def split: option.splits)
  from regexExec_Some[OF this] obtain pre s st rest where
    u: "url = pre @ s" and m: "rmatch versionPattern (s, None) = st # rest" and c: "snd st = Some v"
    and left: "\<And>pre' s'. url = pre' @ s' \<Longrightarrow> length pre' < length pre
                 \<Longrightarrow> rmatch versionPattern (s', None) = []"
    by blast
  from first_match_occurs[OF m] obtain v0 t where
    v0: "snd st = Some v0" "dottedNumber v0" "s = ''bedrock-server-'' @ v0 @ ''.zip'' @ t"
    by blast
  with c have "v0 = v" by simp
  with v0 u have occ: "occursAt url pre v" unfolding occursAt_def by blast
  have "length pre \<le> length pre'" if o: "occursAt url pre' v'" for pre' v'
  proof (rule ccontr)
    assume "\<not> length pre \<le> length pre'"
    then have lt: "length pre' < length pre" by simp
    from occurs_matches[OF o] obtain post where
      u': "url = pre' @ ''bedrock-server-'' @ v' @ ''.zip'' @ post"
      and m': "(post, Some v') \<in> set (rmatch versionPattern (''bedrock-server-'' @ v' @ ''.zip'' @ post, None))"
      by blast
    from left[OF u' lt] m' show False by simp
  qed
  with occ show ?thesis unfolding patternCapture_def by blast
qed

lemma capture_extractVersion:
  assumes "patternCapture url v"
  shows "extractVersion url = Some v"
proof -
  from assms obtain pre where occ: "occursAt url pre v"
    and least: "\<And>pre' v'. occursAt url pre' v' \<Longrightarrow> length pre \<le> length pre'"
    unfolding patternCapture_def by blast
  from occurs_matches[OF occ] obtain post where
    u: "url = pre @ ''bedrock-server-'' @ v @ ''.zip'' @ post"
    and m: "(post, Some v) \<in> set (rmatch versionPattern (''bedrock-server-'' @ v @ ''.zip'' @ post, None))"
    by blast
  from occ have d: "dottedNumber v" unfolding occursAt_def by blast
  show ?thesis
  proof (cases "regexExec versionPattern url")
    case None
    from regexExec_None[OF None u] m show ?thesis by simp
  next
    case (Some c)
    from regexExec_Some[OF Some] obtain pre0 s0 st rest where
      u0: "url = pre0 @ s0" and m0: "rmatch versionPattern (s0, None) = st # rest"
      and c: "snd st = c"
      and left: "\<And>pre' s'. url = pre' @ s' \<Longrightarrow> length pre' < length pre0
                 \<Longrightarrow> rmatch versionPattern (s', None) = []"
      by blast
    from first_match_occurs[OF m0] obtain v0 t where
      v0: "snd st = Some v0" "dottedNumber v0" "s0 = ''bedrock-server-'' @ v0 @ ''.zip'' @ t"
      by blast
    have "occursAt url pre0 v0" using u0 v0 unfolding occursAt_def by blast
    then have le: "length pre \<le> length pre0" by (rule least)
    have "\<not> length pre < length pre0"
    proof
      assume "length pre < length pre0"
      from left[OF u this] m show False by simp
    qed
    with le have "length pre = length pre0" by simp
    with u u0 have "pre = pre0" and "s0 = ''bedrock-server-'' @ v @ ''.zip'' @ post"
      by (simp_all add: append_eq_append_conv)
    with v0(3) have "v0 @ ''.zip'' @ t = v @ ''.zip'' @ post" by simp
    then have "v0 = v" by (rule capture_unique[OF v0(2) d])
    with v0(1) c Some show ?thesis by (simp add: extractVersion_def)
  qed
qed

lemma extractVersion_iff: "(extractVersion url = Some v) = patternCapture url v"
  using extractVersion_capture capture_extractVersion by blast

lemma patternCapture_nonempty: "patternCapture url v \<Longrightarrow> v \<noteq> []"
  unfolding patternCapture_def occursAt_def using dottedNumber_chars(1) by blast

lemma resolveVersion_cases:
  "resolveVersion primary secondary =
     (case extractVersion primary of
        Some v \<Rightarrow> v
      | None \<Rightarrow> (case extractVersion secondary of Some v \<Rightarrow> v | None \<Rightarrow> ''unknown''))"
proof -
  have ne: "extractVersion url = Some v \<Longrightarrow> v \<noteq> []" for url v
    using patternCapture_nonempty extractVersion_capture by blast
  show ?thesis
    by (cases "extractVersion primary"; cases "extractVersion secondary")
       (auto simp: resolveVersion_def dest: ne)
qed

section \<open>The claims\<close>

text \<open>
  C2. When there is no prior document, the run reports a change, the history it writes is
  empty, and \<open>latest\<close> is the fetched pair, whose two timestamps are the \<open>now\<close> of
  the fetch.
\<close>

theorem bootstrap:
  "reconcile getTime fetched None = (\<lparr>latest = fetched, history = []\<rparr>, True)
   \<and> releasedAt (stable (fetchLatestVersions links now)) = now
   \<and> releasedAt (preview (fetchLatestVersions links now)) = now"
  by (simp add: reconcile_def compareWithExisting_def uniqueHistory_def filter_indexed_def
      array_sort_def fetchLatestVersions_def Let_def)

text \<open>
  C3. The flag is true exactly when there is no prior document, or the stable version
  strings differ, or the preview version strings differ. The comparison is equality of
  strings, each channel by itself.
\<close>

theorem changed_flag:
  "snd (reconcile getTime fetched existingData) =
     (case existingData of
        None \<Rightarrow> True
      | Some d \<Rightarrow> version (stable (latest d)) \<noteq> version (stable fetched)
               \<or> version (preview (latest d)) \<noteq> version (preview fetched))"
proof (cases existingData)
  case None
  then show ?thesis by (simp add: changed_reconcile compareWithExisting_def)
next
  case (Some d)
  then show ?thesis by (simp add: changed_reconcile hasChanges_present)
qed

theorem changed_flag_witness:
  "snd (reconcile isoTime example_fetched (Some example_prior))
   \<and> version (stable (latest example_prior)) \<noteq> version (stable example_fetched)
   \<and> version (preview (latest example_prior)) = version (preview example_fetched)"
  using changed_flag[of isoTime example_fetched "Some example_prior"]
  by (simp add: example_prior_def example_fetched_def)

text \<open>
  C6. No two entries of the written history have the same type and version. The list
  before sorting is the prior history followed by the entries pushed in this run (the
  prior stable descriptor when the stable version changed, then the prior preview
  descriptor when the preview version changed), or the empty list without a prior
  document; the entries that are written are exactly those that come first for their type
  and version in that list.
\<close>

theorem history_unique_first:
  "distinct (map entryKey (history (fst (reconcile getTime fetched existingData))))
   \<and> set (history (fst (reconcile getTime fetched existingData))) =
       {e. find (\<lambda>x. entryKey x = entryKey e)
             (case existingData of
                None \<Rightarrow> []
              | Some d \<Rightarrow>
                  history d
                  @ (if version (stable (latest d)) \<noteq> version (stable fetched)
                     then [historyEntry Stable (stable (latest d))] else [])
                  @ (if version (preview (latest d)) \<noteq> version (preview fetched)
                     then [historyEntry Preview (preview (latest d))] else []))
           = Some e}"
proof -
  have list: "newHistory (compareWithExisting fetched existingData) =
      (case existingData of
         None \<Rightarrow> []
       | Some d \<Rightarrow>
           history d
           @ (if version (stable (latest d)) \<noteq> version (stable fetched)
              then [historyEntry Stable (stable (latest d))] else [])
           @ (if version (preview (latest d)) \<noteq> version (preview fetched)
              then [historyEntry Preview (preview (latest d))] else []))"
  proof (cases existingData)
    case None
    then show ?thesis by (simp add: newHistory_absent)
  next
    case (Some d)
    then show ?thesis by (simp add: newHistory_present pushed_def)
  qed
  have "distinct (map entryKey (uniqueHistory (newHistory (compareWithExisting fetched existingData))))"
    by (simp add: uniqueHistory_dedupSeen dedupSeen_distinct)
  moreover have "set (uniqueHistory (newHistory (compareWithExisting fetched existingData))) =
       {e. find (\<lambda>x. entryKey x = entryKey e)
             (newHistory (compareWithExisting fetched existingData)) = Some e}"
    using uniqueHistory_mem by blast
  ultimately have "distinct (map entryKey (history (fst (reconcile getTime fetched existingData))))
   \<and> set (history (fst (reconcile getTime fetched existingData))) =
       {e. find (\<lambda>x. entryKey x = entryKey e)
             (newHistory (compareWithExisting fetched existingData)) = Some e}"
    by (simp add: history_reconcile distinct_keys_array_sort set_array_sort)
  then show ?thesis unfolding list .
qed

text \<open>
  On \<open>rollback_prior\<close> the list before sorting has two entries for stable 1.21.120.0: the
  one of the prior history and, behind it, the pushed one. The first is written, the
  second is not.
\<close>

theorem history_unique_first_witness:
  "first_period_entry \<in> set (history rollback_prior)
   \<and> entryKey (historyEntry Stable (stable (latest rollback_prior))) = entryKey first_period_entry
   \<and> first_period_entry \<in> set (history (fst (reconcile isoTime example_fetched (Some rollback_prior))))
   \<and> historyEntry Stable (stable (latest rollback_prior))
        \<notin> set (history (fst (reconcile isoTime example_fetched (Some rollback_prior))))"
proof -
  let ?L = "case Some rollback_prior of
                None \<Rightarrow> []
              | Some d \<Rightarrow>
                  history d
                  @ (if version (stable (latest d)) \<noteq> version (stable example_fetched)
                     then [historyEntry Stable (stable (latest d))] else [])
                  @ (if version (preview (latest d)) \<noteq> version (preview example_fetched)
                     then [historyEntry Preview (preview (latest d))] else [])"
  have written: "set (history (fst (reconcile isoTime example_fetched (Some rollback_prior)))) =
       {e. find (\<lambda>x. entryKey x = entryKey e) ?L = Some e}"
    by (rule history_unique_first[of isoTime example_fetched "Some rollback_prior", THEN conjunct2])
  have a: "first_period_entry \<in> set (history rollback_prior)"
    by code_simp
  have b: "entryKey (historyEntry Stable (stable (latest rollback_prior))) = entryKey first_period_entry"
    by code_simp
  have f: "find (\<lambda>x. entryKey x = entryKey first_period_entry) ?L = Some first_period_entry"
    by code_simp
  have g: "find (\<lambda>x. entryKey x = entryKey (historyEntry Stable (stable (latest rollback_prior)))) ?L
      \<noteq> Some (historyEntry Stable (stable (latest rollback_prior)))"
    by code_simp
  have c: "first_period_entry \<in> set (history (fst (reconcile isoTime example_fetched (Some rollback_prior))))"
    unfolding written mem_Collect_eq by (rule f)
  have d: "historyEntry Stable (stable (latest rollback_prior))
        \<notin> set (history (fst (reconcile isoTime example_fetched (Some rollback_prior))))"
    unfolding written mem_Collect_eq by (rule g)
  from a b c d show ?thesis by (intro conjI)
qed

text \<open>
  C10. When no two entries of the prior history have the same type and version, every
  entry of the prior history, and so every type and version in it, is in the written
  history.
\<close>

theorem history_kept:
  assumes "distinct (map entryKey (history d))"
  shows "set (history d) \<subseteq> set (history (fst (reconcile getTime fetched (Some d))))
       \<and> entryKey ` set (history d)
           \<subseteq> entryKey ` set (history (fst (reconcile getTime fetched (Some d))))"
proof -
  have "set (history d) \<subseteq> set (history (fst (reconcile getTime fetched (Some d))))"
    using assms
    by (auto simp: history_reconcile set_array_sort uniqueHistory_mem newHistory_present
        find_first_distinct)
  then show ?thesis by blast
qed

theorem history_kept_witness:
  "distinct (map entryKey (history example_prior))
   \<and> set (history example_prior)
       \<subseteq> set (history (fst (reconcile isoTime example_fetched (Some example_prior))))
   \<and> entryKey ` set (history example_prior)
       \<subseteq> entryKey ` set (history (fst (reconcile isoTime example_fetched (Some example_prior))))"
proof -
  have h: "distinct (map entryKey (history example_prior))"
    by (simp add: example_prior_def entryKey_def)
  show ?thesis using h history_kept[OF h, of isoTime example_fetched] by simp
qed

text \<open>
  C7. When every timestamp of the list that is sorted is a date, the written history is
  that list in descending order of time, and entries of the same time keep the order they
  had in the list.
\<close>

theorem history_sorted:
  assumes "list_all (\<lambda>e. getTime (releasedAt e) \<noteq> None)
             (uniqueHistory (newHistory (compareWithExisting fetched existingData)))"
  shows "sorted_wrt (newerOrSame getTime) (history (fst (reconcile getTime fetched existingData)))
    \<and> mset (history (fst (reconcile getTime fetched existingData)))
        = mset (uniqueHistory (newHistory (compareWithExisting fetched existingData)))
    \<and> (\<forall>t. filter (\<lambda>e. getTime (releasedAt e) = Some t)
               (history (fst (reconcile getTime fetched existingData)))
           = filter (\<lambda>e. getTime (releasedAt e) = Some t)
               (uniqueHistory (newHistory (compareWithExisting fetched existingData))))"
proof -
  have "\<forall>e\<in>set (uniqueHistory (newHistory (compareWithExisting fetched existingData))).
          getTime (releasedAt e) \<noteq> None"
    using assms by (simp add: list_all_iff)
  then show ?thesis
    by (simp add: history_reconcile sorted_array_sort mset_array_sort same_time_stable)
qed

theorem history_sorted_witness:
  "list_all (\<lambda>e. isoTime (releasedAt e) \<noteq> None)
     (uniqueHistory (newHistory (compareWithExisting example_fetched (Some example_prior))))
   \<and> sorted_wrt (newerOrSame isoTime)
       (history (fst (reconcile isoTime example_fetched (Some example_prior))))
   \<and> map version (history (fst (reconcile isoTime example_fetched (Some example_prior))))
       = [''1.21.120.0'', ''1.21.120.24'', ''1.21.114.1'']"
proof -
  have h: "list_all (\<lambda>e. isoTime (releasedAt e) \<noteq> None)
     (uniqueHistory (newHistory (compareWithExisting example_fetched (Some example_prior))))"
    by code_simp
  have v: "map version (history (fst (reconcile isoTime example_fetched (Some example_prior))))
       = [''1.21.120.0'', ''1.21.120.24'', ''1.21.114.1'']"
    by code_simp
  show ?thesis using h v history_sorted[OF h] by simp
qed

text \<open>
  C5. When the fetched version of a channel equals the prior one, the written timestamp of
  that channel is the prior timestamp, no entry of that channel is pushed, and every entry
  of that channel in the written history was in the prior history, whatever happens to the
  other channel.
\<close>

theorem unchanged_channel:
  assumes "version (channelOf c (latest d)) = version (channelOf c fetched)"
  shows "releasedAt (channelOf c (latest (fst (reconcile getTime fetched (Some d)))))
           = releasedAt (channelOf c (latest d))
       \<and> filter (\<lambda>e. type e = c) (newHistory (compareWithExisting fetched (Some d)))
           = filter (\<lambda>e. type e = c) (history d)
       \<and> set (filter (\<lambda>e. type e = c) (history (fst (reconcile getTime fetched (Some d)))))
           \<subseteq> set (history d)"
proof -
  have a: "releasedAt (channelOf c (latest (fst (reconcile getTime fetched (Some d)))))
           = releasedAt (channelOf c (latest d))"
    using assms by (simp add: latest_reconcile channelOf_latest_present)
  have b: "filter (\<lambda>e. type e = c) (newHistory (compareWithExisting fetched (Some d)))
           = filter (\<lambda>e. type e = c) (history d)"
    using assms by (cases c) (simp_all add: newHistory_present pushed_def historyEntry_def)
  have sub: "set (history (fst (reconcile getTime fetched (Some d))))
      \<subseteq> set (newHistory (compareWithExisting fetched (Some d)))"
    using dedupSeen_subset[of "[]"] by (simp add: history_reconcile set_array_sort uniqueHistory_dedupSeen)
  have c: "set (filter (\<lambda>e. type e = c) (history (fst (reconcile getTime fetched (Some d)))))
           \<subseteq> set (history d)"
  proof
    fix e assume "e \<in> set (filter (\<lambda>e. type e = c) (history (fst (reconcile getTime fetched (Some d)))))"
    with sub have "e \<in> set (filter (\<lambda>e. type e = c) (newHistory (compareWithExisting fetched (Some d))))"
      by auto
    then show "e \<in> set (history d)" unfolding b by simp
  qed
  from a b c show ?thesis by simp
qed

theorem unchanged_channel_witness:
  "version (channelOf Preview (latest example_prior)) = version (channelOf Preview example_fetched)
   \<and> version (channelOf Stable (latest example_prior)) \<noteq> version (channelOf Stable example_fetched)
   \<and> releasedAt (channelOf Preview (latest (fst (reconcile isoTime example_fetched (Some example_prior)))))
       = ''2025-11-20T00:00:00.000Z''
   \<and> set (filter (\<lambda>e. type e = Preview)
            (history (fst (reconcile isoTime example_fetched (Some example_prior)))))
       \<subseteq> set (history example_prior)"
proof -
  have h: "version (channelOf Preview (latest example_prior))
      = version (channelOf Preview example_fetched)"
    by (simp add: example_prior_def example_fetched_def)
  have o: "version (channelOf Stable (latest example_prior))
      \<noteq> version (channelOf Stable example_fetched)"
    by (simp add: example_prior_def example_fetched_def)
  have t: "releasedAt (channelOf Preview (latest example_prior)) = ''2025-11-20T00:00:00.000Z''"
    by (simp add: example_prior_def)
  show ?thesis using h o t unchanged_channel[OF h, of isoTime] by simp
qed

text \<open>
  The example documents are what the script produces: \<open>example_fetched\<close> is fetched
  from a response, and \<open>rollback_prior\<close> is written by three runs that start without a
  document and fetch stable 1.21.120.0, then 1.21.121.1, then 1.21.120.0 again.
\<close>

lemma example_fetched_is_fetched:
  "fetchLatestVersions (example_links ''1.21.124.2'' ''1.21.130.28'') ''2025-11-21T00:00:00.000Z''
     = example_fetched"
  by code_simp

lemma rollback_prior_is_written:
  "fst (reconcile isoTime
         (fetchLatestVersions (example_links ''1.21.120.0'' ''1.21.130.28'') ''2025-11-18T00:00:00.000Z'')
         (Some (fst (reconcile isoTime
           (fetchLatestVersions (example_links ''1.21.121.1'' ''1.21.130.28'') ''2025-11-16T00:00:00.000Z'')
           (Some (fst (reconcile isoTime
             (fetchLatestVersions (example_links ''1.21.120.0'' ''1.21.130.28'') ''2025-11-15T00:00:00.000Z'')
             None)))))))
     = rollback_prior"
  by code_simp




text \<open>
  C1. Let a first run write a document whose history timestamps are all dates. A second
  run with the same fetched descriptors, at any later time, on that document reports no
  change and writes the same document again: the same \<open>latest\<close> with the same
  timestamps and the same history in the same order.
\<close>

theorem second_run_idle:
  assumes "list_all (\<lambda>e. getTime (releasedAt e) \<noteq> None)
             (history (fst (reconcile getTime fetched existingData)))"
  shows "reconcile getTime
     (fetched\<lparr>stable := (stable fetched)\<lparr>releasedAt := later\<rparr>,
              preview := (preview fetched)\<lparr>releasedAt := later\<rparr>\<rparr>)
     (Some (fst (reconcile getTime fetched existingData)))
   = (fst (reconcile getTime fetched existingData), False)"
proof -
  let ?S1 = "fst (reconcile getTime fetched existingData)"
  let ?F' = "fetched\<lparr>stable := (stable fetched)\<lparr>releasedAt := later\<rparr>,
                     preview := (preview fetched)\<lparr>releasedAt := later\<rparr>\<rparr>"
  have same: "version (channelOf c (latest ?S1)) = version (channelOf c fetched)
      \<and> windows (channelOf c (latest ?S1)) = windows (channelOf c fetched)
      \<and> linux (channelOf c (latest ?S1)) = linux (channelOf c fetched)" for c
  proof (cases existingData)
    case None
    then show ?thesis by (simp add: latest_reconcile compareWithExisting_def)
  next
    case (Some d)
    then show ?thesis by (simp add: latest_reconcile channelOf_latest_present)
  qed
  have vs: "version (stable (latest ?S1)) = version (stable fetched)"
    and vp: "version (preview (latest ?S1)) = version (preview fetched)"
    and ws: "windows (stable (latest ?S1)) = windows (stable fetched)"
    and wp: "windows (preview (latest ?S1)) = windows (preview fetched)"
    and ls: "linux (stable (latest ?S1)) = linux (stable fetched)"
    and lp: "linux (preview (latest ?S1)) = linux (preview fetched)"
    using same[of Stable] same[of Preview] by simp_all
  have noPush: "pushed ?F' ?S1 = []"
    using vs vp by (simp add: pushed_def)
  have flag: "snd (reconcile getTime ?F' (Some ?S1)) = False"
    using vs vp by (simp add: changed_reconcile hasChanges_present)
  have lat: "latest (fst (reconcile getTime ?F' (Some ?S1))) = latest ?S1"
    using vs vp ws wp ls lp by (simp add: latest_reconcile[of getTime ?F'] latestVersions_present)
  have uniq: "distinct (map entryKey (history ?S1))"
    by (simp add: history_reconcile distinct_keys_array_sort uniqueHistory_dedupSeen dedupSeen_distinct)
  have "history (fst (reconcile getTime ?F' (Some ?S1)))
      = array_sort (compareFn getTime) (uniqueHistory (history ?S1))"
    using noPush by (simp add: history_reconcile[of getTime ?F'] newHistory_present)
  also have "uniqueHistory (history ?S1) = history ?S1"
    using uniq by (simp add: uniqueHistory_dedupSeen dedupSeen_id)
  also have "array_sort (compareFn getTime) (history ?S1) = history ?S1"
  proof (rule array_sort_sorted)
    have "\<forall>e\<in>set (uniqueHistory (newHistory (compareWithExisting fetched existingData))).
        getTime (releasedAt e) \<noteq> None"
      using assms by (simp add: list_all_iff history_reconcile set_array_sort)
    then show "sorted_wrt (newerOrSame getTime) (history ?S1)"
      unfolding history_reconcile by (rule sorted_array_sort)
  qed
  finally have hist: "history (fst (reconcile getTime ?F' (Some ?S1))) = history ?S1" .
  have "fst (reconcile getTime ?F' (Some ?S1)) = ?S1"
    using lat hist by (intro VersionData.equality) simp_all
  with flag show ?thesis by (simp add: prod_eq_iff)
qed

theorem second_run_idle_witness:
  "list_all (\<lambda>e. isoTime (releasedAt e) \<noteq> None)
     (history (fst (reconcile isoTime example_fetched (Some rollback_prior))))
   \<and> reconcile isoTime
       (example_fetched\<lparr>stable := (stable example_fetched)\<lparr>releasedAt := ''2025-11-22T00:00:00.000Z''\<rparr>,
                        preview := (preview example_fetched)\<lparr>releasedAt := ''2025-11-22T00:00:00.000Z''\<rparr>\<rparr>)
       (Some (fst (reconcile isoTime example_fetched (Some rollback_prior))))
     = (fst (reconcile isoTime example_fetched (Some rollback_prior)), False)
   \<and> snd (reconcile isoTime example_fetched (Some rollback_prior))"
proof -
  have h: "list_all (\<lambda>e. isoTime (releasedAt e) \<noteq> None)
     (history (fst (reconcile isoTime example_fetched (Some rollback_prior))))"
    by code_simp
  have first: "snd (reconcile isoTime example_fetched (Some rollback_prior))"
    by code_simp
  from h second_run_idle[OF h, of "''2025-11-22T00:00:00.000Z''"] first
  show ?thesis by (intro conjI)
qed

text \<open>
  C8, as the claim states it, fails: for a file that exists and on which reading or
  parsing throws, the function does not fail; it returns \<open>null\<close>, as for no file.
\<close>

theorem corrupt_file_read_as_absent:
  "example_disk ''/repo/versions.json'' = Unparsable
   \<and> loadExistingData example_disk ''/repo/versions.json'' = Inr None"
  by (simp add: example_disk_def loadExistingData_def)

text \<open>
  C8, amended. Loading returns \<open>null\<close> when there is no file at the path, and also when
  there is a file on which reading or parsing throws; it never fails, and a document that
  parses is returned as it is. After a file of the second kind the run goes on as without a
  prior document: it reports a change and writes the fetched pair with an empty history.
\<close>

theorem load_never_fails:
  "loadExistingData (fs(filePath := NoFile)) filePath = Inr None
   \<and> loadExistingData (fs(filePath := Unparsable)) filePath = Inr None
   \<and> loadExistingData (fs(filePath := Document v)) filePath = Inr (Some v)
   \<and> mainResult getTime (disk(outputPath := Unparsable)) outputPath links now
       = Inr (\<lparr>latest = fetchLatestVersions links now, history = []\<rparr>, True)"
  by (simp add: loadExistingData_def mainResult_def reconcile_absent)

text \<open>
  C9. \<open>extractVersion\<close> returns exactly what the pattern captures in a locator. The
  version of a channel is the capture in the primary locator when the pattern occurs
  there; otherwise the capture in the secondary locator when it occurs there; otherwise
  \<open>unknown\<close>.
\<close>

theorem version_resolution:
  "(\<forall>url u. (extractVersion url = Some u) = patternCapture url u)
   \<and> (patternCapture primary v \<longrightarrow> resolveVersion primary secondary = v)
   \<and> ((\<forall>u. \<not> patternCapture primary u) \<and> patternCapture secondary v
        \<longrightarrow> resolveVersion primary secondary = v)
   \<and> ((\<forall>u. \<not> patternCapture primary u) \<and> (\<forall>u. \<not> patternCapture secondary u)
        \<longrightarrow> resolveVersion primary secondary = ''unknown'')"
proof -
  have none: "extractVersion url = None" if "\<forall>u. \<not> patternCapture url u" for url
    using that extractVersion_iff[of url] by (cases "extractVersion url") auto
  have a: "patternCapture primary v \<longrightarrow> resolveVersion primary secondary = v"
    by (simp add: resolveVersion_cases extractVersion_iff[symmetric])
  have b: "(\<forall>u. \<not> patternCapture primary u) \<and> patternCapture secondary v
        \<longrightarrow> resolveVersion primary secondary = v"
    using none[of primary] by (simp add: resolveVersion_cases extractVersion_iff[symmetric])
  have c: "(\<forall>u. \<not> patternCapture primary u) \<and> (\<forall>u. \<not> patternCapture secondary u)
        \<longrightarrow> resolveVersion primary secondary = ''unknown''"
    using none[of primary] none[of secondary] by (simp add: resolveVersion_cases)
  from a b c extractVersion_iff show ?thesis by blast
qed

theorem version_resolution_witness:
  "patternCapture (windows (stable example_fetched)) ''1.21.124.2''
   \<and> resolveVersion (windows (stable example_fetched)) (linux (stable example_fetched)) = ''1.21.124.2''
   \<and> extractVersion ''https://example.org/bedrock-server-1.21.zip'' = None
   \<and> resolveVersion ''https://example.org/bedrock-server-1.21.zip'' (linux (preview example_fetched))
       = ''1.21.130.28''
   \<and> resolveVersion [] [] = ''unknown''"
proof -
  have e1: "extractVersion (windows (stable example_fetched)) = Some ''1.21.124.2''"
    by code_simp
  have e2: "extractVersion ''https://example.org/bedrock-server-1.21.zip'' = None"
    by code_simp
  have e3: "extractVersion (linux (preview example_fetched)) = Some ''1.21.130.28''"
    by code_simp
  have e4: "extractVersion [] = None"
    by code_simp
  have iff: "(extractVersion url = Some u) = patternCapture url u" for url u
    using version_resolution[of url u url] by (elim conjE) (erule allE, erule allE, assumption)
  have p1: "patternCapture (windows (stable example_fetched)) ''1.21.124.2''"
    using e1 by (rule iff[THEN iffD1])
  have n2: "\<forall>u. \<not> patternCapture ''https://example.org/bedrock-server-1.21.zip'' u"
  proof (intro allI notI)
    fix u assume "patternCapture ''https://example.org/bedrock-server-1.21.zip'' u"
    then have "extractVersion ''https://example.org/bedrock-server-1.21.zip'' = Some u"
      by (rule iff[THEN iffD2])
    then show False unfolding e2 by simp
  qed
  have p3: "patternCapture (linux (preview example_fetched)) ''1.21.130.28''"
    using e3 by (rule iff[THEN iffD1])
  have n4: "\<forall>u. \<not> patternCapture [] u"
  proof (intro allI notI)
    fix u assume "patternCapture [] u"
    then have "extractVersion [] = Some u" by (rule iff[THEN iffD2])
    then show False unfolding e4 by simp
  qed
  have r1: "resolveVersion (windows (stable example_fetched)) (linux (stable example_fetched)) = ''1.21.124.2''"
    by (rule version_resolution[THEN conjunct2, THEN conjunct1, rule_format, OF p1])
  have r2: "resolveVersion ''https://example.org/bedrock-server-1.21.zip'' (linux (preview example_fetched))
       = ''1.21.130.28''"
    by (rule version_resolution[THEN conjunct2, THEN conjunct2, THEN conjunct1, rule_format, OF conjI[OF n2 p3]])
  have r3: "resolveVersion [] [] = ''unknown''"
    by (rule version_resolution[THEN conjunct2, THEN conjunct2, THEN conjunct2, rule_format, OF conjI[OF n4 n4]])
  show ?thesis
    by (intro conjI p1 r1 e2 r2 r3)
qed

end
